theory Spec2Isabelle
  imports Complex_Main "HOL-Library.Log_Nat" "HOL-Library.AList" "HOL-Library.Multiset"
begin

section \<open>ECR image cleanup: the two retention scripts\<close>

text \<open>
  The repository holds two Go programs. \<^verbatim>\<open>scripts/test.go\<close> keeps the two most recently
  pushed images among all images whose tags match a retained prefix and deletes the other
  matched images and every untagged image (the specification's Variant A).
  \<^verbatim>\<open>scripts/main.go\<close> keeps the two most recently pushed images of every prefix group and
  deletes the remaining tagged images that are older than a retention period (Variant B).
  Both are a single \<^verbatim>\<open>main\<close> function; the model follows the body of the loop over the
  repositories, one repository at a time.
\<close>

subsection \<open>Data\<close>

text \<open>
  \<^verbatim>\<open>ecr.ImageDetail\<close>, restricted to the three fields the scripts read. The SDK's fields
  are pointers; the scripts dereference the digest and every tag without a nil check, so the
  model takes them as present. \<^verbatim>\<open>ImagePushedAt\<close> is tested against nil and is an option.
  A \<^verbatim>\<open>time.Time\<close> is an instant in nanoseconds.
\<close>

record ImageDetail =
  ImageDigest :: string
  ImageTags :: "string list"
  ImagePushedAt :: "int option"

text \<open>The local struct of \<^verbatim>\<open>main.go\<close> (lines 99-103).\<close>

record taggedImage =
  digest :: string
  tags :: "string list"
  pushedTime :: int

text \<open>
  What a run does that can be observed: the lines it logs and the registry calls it issues.
  \<^item> \<^verbatim>\<open>main.go\<close>: line 146 (untagged candidate), line 152 (retained), line 158 (old image),
    line 162 (delete call), lines 169 and 171 (outcome of the call);
  \<^item> \<^verbatim>\<open>test.go\<close>: line 129 (retaining), line 147 (delete call), lines 154 and 156
    (outcome), line 159 (dry run).
\<close>

datatype event =
    LogUntaggedCandidate string
  | LogKeepRetained string "string list"
  | LogOldImage string int "string list"
  | BatchDeleteImage string string
  | LogErrorDeleting string
  | LogImageDeleted string
  | LogRetaining string
  | LogDryRun string

subsection \<open>Library functions the scripts call\<close>

text \<open>\<^verbatim>\<open>strings.HasPrefix(s, prefix)\<close>: \<^verbatim>\<open>len(s) >= len(prefix) && s[:len(prefix)] == prefix\<close>.\<close>

definition HasPrefix :: "string \<Rightarrow> string \<Rightarrow> bool" where
  "HasPrefix s p = (length p \<le> length s \<and> take (length p) s = p)"

text \<open>
  \<^verbatim>\<open>strings.Split(s, ",")\<close>: the pieces of \<open>s\<close> between the commas; one piece more than
  there are commas, so never an empty slice.
\<close>

fun Split :: "string \<Rightarrow> string list" where
  "Split [] = [[]]"
| "Split (c # cs) =
     (if c = CHR '','' then [] # Split cs
      else (case Split cs of [] \<Rightarrow> [[c]] | w # ws \<Rightarrow> (c # w) # ws))"

text \<open>
  \<^verbatim>\<open>sort.Slice(xs, less)\<close>. The standard library sorts a slice of at most 12 elements by
  insertion: for \<open>i\<close> from 1 upwards, element \<open>i\<close> is swapped leftwards while \<^verbatim>\<open>less\<close> of it
  and its left neighbour holds. \<open>insertLeft\<close> is the inner loop, on the already placed
  elements listed from right to left; \<open>sortSlice\<close> is the outer loop. Longer slices are
  sorted by a quicksort whose order among elements that \<^verbatim>\<open>less\<close> does not separate is
  not modelled.
\<close>

fun insertLeft :: "('a \<Rightarrow> 'a \<Rightarrow> bool) \<Rightarrow> 'a \<Rightarrow> 'a list \<Rightarrow> 'a list" where
  "insertLeft lt x [] = [x]"
| "insertLeft lt x (y # ys) =
     (if lt x y then y # insertLeft lt x ys else x # y # ys)"

definition sortSlice :: "('a \<Rightarrow> 'a \<Rightarrow> bool) \<Rightarrow> 'a list \<Rightarrow> 'a list" where
  "sortSlice lt xs = rev (foldl (\<lambda>placed x. insertLeft lt x placed) [] xs)"

text \<open>\<^verbatim>\<open>t.After(u)\<close> on instants.\<close>

definition After :: "int \<Rightarrow> int \<Rightarrow> bool" where
  "After t u = (u < t)"

subsection \<open>The age of an image (\<^verbatim>\<open>main.go\<close> line 142)\<close>

text \<open>
  \<^verbatim>\<open>int(time.Since(t).Hours() / 24)\<close>.
  \<^item> \<^verbatim>\<open>time.Since(t)\<close> is \<^verbatim>\<open>time.Now().Sub(t)\<close>, a \<^verbatim>\<open>Duration\<close>: a signed 64-bit count of
    nanoseconds, saturating at both ends.
  \<^item> \<^verbatim>\<open>d.Hours()\<close> is \<^verbatim>\<open>float64(d / Hour) + float64(d % Hour) / (60*60*1e9)\<close>, with Go's
    integer division, which truncates towards zero.
  \<^item> The quotient by 24 is a \<^verbatim>\<open>float64\<close> division, and \<^verbatim>\<open>int(...)\<close> truncates towards zero.
  A \<^verbatim>\<open>float64\<close> operation returns the exact result rounded to the nearest number with a
  53-bit significand, ties to even; \<open>float64\<close> is that rounding on the rationals (all the
  values here are far from the overflow and subnormal ranges).
\<close>

definition Hour :: int where
  "Hour = 3600000000000"

definition Sub :: "int \<Rightarrow> int \<Rightarrow> int" where
  "Sub t u = max (- (2 ^ 63)) (min (2 ^ 63 - 1) (t - u))"

definition quo :: "int \<Rightarrow> int \<Rightarrow> int" where
  "quo a b = sgn a * sgn b * (\<bar>a\<bar> div \<bar>b\<bar>)"

definition rem :: "int \<Rightarrow> int \<Rightarrow> int" where
  "rem a b = a - b * quo a b"

definition ilog2 :: "rat \<Rightarrow> int" where
  "ilog2 x = (if 1 \<le> x then bitlen \<lfloor>x\<rfloor> - 1 else - bitlen (\<lceil>1 / x\<rceil> - 1))"

definition roundEven :: "rat \<Rightarrow> int" where
  "roundEven x =
     (let f = \<lfloor>x\<rfloor>; r = x - of_int f
      in if r < 1 / 2 then f else if 1 / 2 < r then f + 1
         else if even f then f else f + 1)"

definition float64 :: "rat \<Rightarrow> rat" where
  "float64 x =
     (if x = 0 then 0
      else let q = 2 powi (ilog2 \<bar>x\<bar> - 52)
           in sgn x * of_int (roundEven (\<bar>x\<bar> / q)) * q)"

definition Hours :: "int \<Rightarrow> rat" where
  "Hours d = float64 (float64 (of_int (quo d Hour))
                      + float64 (float64 (of_int (rem d Hour)) / 3600000000000))"

definition truncInt :: "rat \<Rightarrow> int" where
  "truncInt x = (if 0 \<le> x then \<lfloor>x\<rfloor> else \<lceil>x\<rceil>)"

definition imageAge :: "int \<Rightarrow> int \<Rightarrow> int" where
  "imageAge now pushedAt = truncInt (float64 (Hours (Sub now pushedAt) / 24))"

subsection \<open>\<^verbatim>\<open>main.go\<close>: two most recent images per prefix, then an age cutoff\<close>

text \<open>
  Lines 112-121, for one tag: the first prefix of the list that the tag starts with; the
  \<^verbatim>\<open>break\<close> of line 119 ends the search there.
\<close>

fun firstMatch :: "string list \<Rightarrow> string \<Rightarrow> string option" where
  "firstMatch [] tag = None"
| "firstMatch (prefix # rest) tag =
     (if HasPrefix tag prefix then Some prefix else firstMatch rest tag)"

text \<open>
  \<^verbatim>\<open>prefixMatchMap\<close> is a Go map from prefix to slice; the model lists its entries in the
  order the keys were first stored. Line 114 appends to the slice of a key, starting from
  the empty slice when the key is new.
\<close>

type_synonym prefixMap = "(string \<times> taggedImage list) list"

definition appendTo :: "string \<Rightarrow> taggedImage \<Rightarrow> prefixMap \<Rightarrow> prefixMap" where
  "appendTo prefix e m = AList.map_default prefix [e] (\<lambda>l. l @ [e]) m"

text \<open>Lines 111-122: the loop over the tags of one image.\<close>

fun groupTags :: "string list \<Rightarrow> taggedImage \<Rightarrow> string list \<Rightarrow> prefixMap \<Rightarrow> prefixMap" where
  "groupTags prefixes e [] m = m"
| "groupTags prefixes e (tag # rest) m =
     groupTags prefixes e rest
       (case firstMatch prefixes tag of None \<Rightarrow> m | Some prefix \<Rightarrow> appendTo prefix e m)"

definition entryOf :: "ImageDetail \<Rightarrow> int \<Rightarrow> taggedImage" where
  "entryOf img t =
     \<lparr>digest = ImageDigest img, tags = ImageTags img, pushedTime = t\<rparr>"

text \<open>Lines 107-123: the loop over the images.\<close>

fun groupImages :: "string list \<Rightarrow> ImageDetail list \<Rightarrow> prefixMap \<Rightarrow> prefixMap" where
  "groupImages prefixes [] m = m"
| "groupImages prefixes (img # rest) m =
     (case ImagePushedAt img of
        None \<Rightarrow> groupImages prefixes rest m
      | Some t \<Rightarrow>
          if ImageTags img = [] then groupImages prefixes rest m
          else groupImages prefixes rest
                 (groupTags prefixes (entryOf img t) (ImageTags img) m))"

definition prefixMatchMap :: "string list \<Rightarrow> ImageDetail list \<Rightarrow> prefixMap" where
  "prefixMatchMap prefixes images = groupImages prefixes images []"

text \<open>Lines 128-130: a group is sorted with \<^verbatim>\<open>pushedTime.After\<close> as the only comparison.\<close>

definition byPushedTime :: "taggedImage \<Rightarrow> taggedImage \<Rightarrow> bool" where
  "byPushedTime a b = After (pushedTime a) (pushedTime b)"

text \<open>
  Lines 132-134: the digests of the first two entries of a sorted group are stored in
  \<^verbatim>\<open>retainedDigests\<close>, a \<^verbatim>\<open>map[string]bool\<close>, read at line 151 with \<open>False\<close> for a
  missing key.
\<close>

definition retainTop :: "taggedImage list \<Rightarrow> (string \<Rightarrow> bool) \<Rightarrow> (string \<Rightarrow> bool)" where
  "retainTop ranked rd = fold (\<lambda>e rd. rd(digest e := True)) (take 2 ranked) rd"

text \<open>
  Lines 127-135: the loop over the groups. Go visits the keys of a map in no fixed order;
  the loop only sets keys of \<^verbatim>\<open>retainedDigests\<close> to true, group by group.
\<close>

fun retainGroups :: "prefixMap \<Rightarrow> (string \<Rightarrow> bool) \<Rightarrow> (string \<Rightarrow> bool)" where
  "retainGroups [] rd = rd"
| "retainGroups ((prefix, images) # rest) rd =
     retainGroups rest (retainTop (sortSlice byPushedTime images) rd)"

definition retainedDigests :: "string list \<Rightarrow> ImageDetail list \<Rightarrow> string \<Rightarrow> bool" where
  "retainedDigests prefixes images = retainGroups (prefixMatchMap prefixes images) (\<lambda>d. False)"

text \<open>
  Lines 162-172 (and lines 147-157 of \<^verbatim>\<open>test.go\<close>): the registry call and the log of
  its outcome. The registry is outside the program: \<open>svc repoName d\<close> tells whether the
  call for digest \<open>d\<close> returns without an error.
\<close>

definition deleteImage :: "(string \<Rightarrow> string \<Rightarrow> bool) \<Rightarrow> string \<Rightarrow> string \<Rightarrow> event list" where
  "deleteImage svc repoName d =
     [BatchDeleteImage repoName d,
      if svc repoName d then LogImageDeleted d else LogErrorDeleting d]"

text \<open>
  Lines 142-174: the body of the last loop for an image whose \<^verbatim>\<open>ImagePushedAt\<close> is
  \<open>t\<close>, when the clock read by \<^verbatim>\<open>time.Since\<close> shows \<open>now\<close>.
\<close>

definition processImage ::
  "(string \<Rightarrow> string \<Rightarrow> bool) \<Rightarrow> string \<Rightarrow> int \<Rightarrow> bool \<Rightarrow> (string \<Rightarrow> bool)
     \<Rightarrow> int \<Rightarrow> ImageDetail \<Rightarrow> int \<Rightarrow> event list" where
  "processImage svc repoName retention dryRun retained now img t =
     (let imageAge = imageAge now t
      in if ImageTags img = [] then [LogUntaggedCandidate (ImageDigest img)]
         else if retained (ImageDigest img)
         then [LogKeepRetained (ImageDigest img) (ImageTags img)]
         else if retention < imageAge
         then LogOldImage (ImageDigest img) imageAge (ImageTags img)
              # (if \<not> dryRun then deleteImage svc repoName (ImageDigest img) else [])
         else [])"

text \<open>
  Lines 138-175: the loop. The clock is read once for every image that has a push time:
  \<open>clock k\<close> is what the \<open>k\<close>-th reading shows.
\<close>

fun processImages ::
  "(string \<Rightarrow> string \<Rightarrow> bool) \<Rightarrow> string \<Rightarrow> int \<Rightarrow> bool \<Rightarrow> (string \<Rightarrow> bool)
     \<Rightarrow> (nat \<Rightarrow> int) \<Rightarrow> nat \<Rightarrow> ImageDetail list \<Rightarrow> event list" where
  "processImages svc repoName retention dryRun retained clock k [] = []"
| "processImages svc repoName retention dryRun retained clock k (img # rest) =
     (case ImagePushedAt img of
        None \<Rightarrow> processImages svc repoName retention dryRun retained clock k rest
      | Some t \<Rightarrow>
          processImage svc repoName retention dryRun retained (clock k) img t
          @ processImages svc repoName retention dryRun retained clock (Suc k) rest)"

text \<open>
  Lines 93-175: one repository. \<open>prefixList\<close>, \<open>retention\<close> and \<open>dryRun\<close> are what the
  user typed (lines 42-50); nothing checks them.
\<close>

definition cleanupRepository ::
  "(string \<Rightarrow> string \<Rightarrow> bool) \<Rightarrow> (nat \<Rightarrow> int) \<Rightarrow> string \<Rightarrow> int \<Rightarrow> bool
     \<Rightarrow> string \<Rightarrow> ImageDetail list \<Rightarrow> event list" where
  "cleanupRepository svc clock prefixList retention dryRun repoName images =
     (let prefixes = Split prefixList
      in if images = [] then []
         else processImages svc repoName retention dryRun
                (retainedDigests prefixes images) clock 0 images)"

subsection \<open>\<^verbatim>\<open>test.go\<close>: the two most recent matched images overall\<close>

text \<open>Lines 104-109: does the tag start with one of the prefixes.\<close>

fun anyPrefix :: "string list \<Rightarrow> string \<Rightarrow> bool" where
  "anyPrefix [] tag = False"
| "anyPrefix (prefix # rest) tag = (if HasPrefix tag prefix then True else anyPrefix rest tag)"

text \<open>Lines 102-113: the flag \<^verbatim>\<open>matched\<close> after the loop over the tags.\<close>

fun matched :: "string list \<Rightarrow> string list \<Rightarrow> bool" where
  "matched prefixes [] = False"
| "matched prefixes (tag # rest) = (if anyPrefix prefixes tag then True else matched prefixes rest)"

text \<open>Lines 92-118: the images with a push time, split into matched ones and untagged ones.\<close>

fun partitionImages ::
  "string list \<Rightarrow> ImageDetail list \<Rightarrow> ImageDetail list \<times> ImageDetail list
     \<Rightarrow> ImageDetail list \<times> ImageDetail list" where
  "partitionImages prefixes [] (taggedMatches, untagged) = (taggedMatches, untagged)"
| "partitionImages prefixes (img # rest) (taggedMatches, untagged) =
     (if ImagePushedAt img = None then partitionImages prefixes rest (taggedMatches, untagged)
      else if ImageTags img = []
      then partitionImages prefixes rest (taggedMatches, untagged @ [img])
      else if matched prefixes (ImageTags img)
      then partitionImages prefixes rest (taggedMatches @ [img], untagged)
      else partitionImages prefixes rest (taggedMatches, untagged))"

text \<open>
  Lines 121-123: the comparison of the sort. Every element of \<^verbatim>\<open>taggedMatches\<close> has a push
  time (line 93), so the dereference of line 122 never meets nil.
\<close>

definition byPushedAt :: "ImageDetail \<Rightarrow> ImageDetail \<Rightarrow> bool" where
  "byPushedAt a b =
     (case (ImagePushedAt a, ImagePushedAt b) of
        (Some t, Some u) \<Rightarrow> After t u
      | _ \<Rightarrow> False)"

text \<open>Lines 126-132: the first two images of the sorted slice are logged and stored in \<^verbatim>\<open>keepMap\<close>.\<close>

definition keepMap :: "ImageDetail list \<Rightarrow> (string \<rightharpoonup> bool)" where
  "keepMap ranked = fold (\<lambda>img m. m(ImageDigest img \<mapsto> True)) (take 2 ranked) Map.empty"

text \<open>Lines 135-141: the matched images whose digest is not a key of \<^verbatim>\<open>keepMap\<close>, then the untagged ones.\<close>

definition toDelete :: "ImageDetail list \<Rightarrow> ImageDetail list \<Rightarrow> ImageDetail list" where
  "toDelete ranked untagged =
     filter (\<lambda>img. keepMap ranked (ImageDigest img) = None) ranked @ untagged"

text \<open>Lines 144-161: every image of \<^verbatim>\<open>toDelete\<close> is deleted, or logged in a dry run.\<close>

fun deleteAll :: "(string \<Rightarrow> string \<Rightarrow> bool) \<Rightarrow> string \<Rightarrow> bool \<Rightarrow> ImageDetail list \<Rightarrow> event list" where
  "deleteAll svc repoName dryRun [] = []"
| "deleteAll svc repoName dryRun (img # rest) =
     (if \<not> dryRun then deleteImage svc repoName (ImageDigest img)
      else [LogDryRun (ImageDigest img)])
     @ deleteAll svc repoName dryRun rest"

text \<open>Lines 84-161: one repository.\<close>

definition rankedMatches :: "string list \<Rightarrow> ImageDetail list \<Rightarrow> ImageDetail list" where
  "rankedMatches prefixes images =
     sortSlice byPushedAt (fst (partitionImages prefixes images ([], [])))"

definition untaggedImages :: "string list \<Rightarrow> ImageDetail list \<Rightarrow> ImageDetail list" where
  "untaggedImages prefixes images = snd (partitionImages prefixes images ([], []))"

definition cleanupRepositoryA ::
  "(string \<Rightarrow> string \<Rightarrow> bool) \<Rightarrow> string \<Rightarrow> bool \<Rightarrow> string \<Rightarrow> ImageDetail list \<Rightarrow> event list" where
  "cleanupRepositoryA svc prefixList dryRun repoName images =
     (let prefixes = Split prefixList
      in if images = [] then []
         else map (\<lambda>img. LogRetaining (ImageDigest img)) (take 2 (rankedMatches prefixes images))
              @ deleteAll svc repoName dryRun
                  (toDelete (rankedMatches prefixes images) (untaggedImages prefixes images)))"

subsection \<open>Notions used to state the properties\<close>

text \<open>\<^verbatim>\<open>prefixMatchMap[prefix]\<close>: the slice stored for a prefix, empty for a missing key.\<close>

definition lookupGroup :: "prefixMap \<Rightarrow> string \<Rightarrow> taggedImage list" where
  "lookupGroup m prefix = (case map_of m prefix of None \<Rightarrow> [] | Some l \<Rightarrow> l)"

definition groupOf :: "string list \<Rightarrow> ImageDetail list \<Rightarrow> string \<Rightarrow> taggedImage list" where
  "groupOf prefixes images prefix = lookupGroup (prefixMatchMap prefixes images) prefix"

text \<open>The tags of an image that are filed under a prefix: those whose first matching prefix it is.\<close>

definition filedUnder :: "string list \<Rightarrow> string \<Rightarrow> string list \<Rightarrow> string list" where
  "filedUnder prefixes prefix ts = filter (\<lambda>tag. firstMatch prefixes tag = Some prefix) ts"

definition entriesOf :: "string list \<Rightarrow> string \<Rightarrow> ImageDetail \<Rightarrow> taggedImage list" where
  "entriesOf prefixes prefix img =
     (case ImagePushedAt img of
        None \<Rightarrow> []
      | Some t \<Rightarrow> replicate (length (filedUnder prefixes prefix (ImageTags img))) (entryOf img t))"

text \<open>
  The digest an output line decides about. In \<^verbatim>\<open>main.go\<close> the decisions are the log lines
  marked \<^verbatim>\<open>[DELETE]\<close> and \<^verbatim>\<open>[KEEP]\<close>; in \<^verbatim>\<open>test.go\<close> they are the line that reports a
  retained image and, for an image to delete, the registry call or the line of the dry run.
\<close>

fun decisionB :: "event \<Rightarrow> string list" where
  "decisionB (LogUntaggedCandidate d) = [d]"
| "decisionB (LogKeepRetained d ts) = [d]"
| "decisionB (LogOldImage d age ts) = [d]"
| "decisionB e = []"

fun decisionA :: "event \<Rightarrow> string list" where
  "decisionA (LogRetaining d) = [d]"
| "decisionA (BatchDeleteImage repoName d) = [d]"
| "decisionA (LogDryRun d) = [d]"
| "decisionA e = []"

text \<open>
  How many times the clock has been read in the last loop of \<^verbatim>\<open>main.go\<close> before the turn
  of an image: once for every earlier image with a push time.
\<close>

fun clockIndex :: "ImageDetail list \<Rightarrow> ImageDetail \<Rightarrow> nat" where
  "clockIndex [] img = 0"
| "clockIndex (x # xs) img =
     (if x = img then 0
      else (if ImagePushedAt x = None then 0 else 1) + clockIndex xs img)"

text \<open>A registry that accepts every call, and a clock that shows the same instant at every reading.\<close>

definition registryUp :: "string \<Rightarrow> string \<Rightarrow> bool" where
  "registryUp repoName d = True"

definition steadyClock :: "int \<Rightarrow> nat \<Rightarrow> int" where
  "steadyClock t k = t"

text \<open>A clock that shows the listed instants at its first readings.\<close>

definition listClock :: "int list \<Rightarrow> nat \<Rightarrow> int" where
  "listClock readings k = (if k < length readings then readings ! k else 0)"

section \<open>Auxiliary facts\<close>

subsection \<open>Sorting\<close>

lemma mset_insertLeft: "mset (insertLeft lt x ys) = add_mset x (mset ys)"
  by (induction ys) simp_all

lemma mset_placed:
  "mset (foldl (\<lambda>placed x. insertLeft lt x placed) acc xs) = mset acc + mset xs"
  by (induction xs arbitrary: acc) (simp_all add: mset_insertLeft)

lemma mset_sortSlice: "mset (sortSlice lt xs) = mset xs"
  by (simp add: sortSlice_def mset_placed)

lemma set_sortSlice: "set (sortSlice lt xs) = set xs"
  using mset_sortSlice [of lt xs] by (metis set_mset_mset)

lemma length_sortSlice: "length (sortSlice lt xs) = length xs"
  using mset_sortSlice [of lt xs] by (metis size_mset)

lemma filter_insertLeft:
  "\<forall>y\<in>set ys. P x \<and> P y \<longrightarrow> \<not> lt x y \<Longrightarrow>
   filter P (insertLeft lt x ys) = filter P (x # ys)"
  by (induction ys) auto

lemma filter_placed:
  "\<forall>x\<in>set (acc @ xs). \<forall>y\<in>set (acc @ xs). P x \<and> P y \<longrightarrow> \<not> lt x y \<Longrightarrow>
   filter P (foldl (\<lambda>placed x. insertLeft lt x placed) acc xs) = rev (filter P xs) @ filter P acc"
proof (induction xs arbitrary: acc)
  case Nil
  then show ?case by simp
next
  case (Cons x xs)
  have ins: "filter P (insertLeft lt x acc) = filter P (x # acc)"
    using Cons.prems by (intro filter_insertLeft) auto
  have "set (insertLeft lt x acc @ xs) = set (acc @ x # xs)"
    using mset_insertLeft [of lt x acc] by (metis set_append set_mset_mset mset.simps(2) list.simps(15) Un_insert_right Un_insert_left)
  with Cons.prems
  have "\<forall>a\<in>set (insertLeft lt x acc @ xs). \<forall>b\<in>set (insertLeft lt x acc @ xs). P a \<and> P b \<longrightarrow> \<not> lt a b"
    by simp
  from Cons.IH [OF this] ins show ?case by simp
qed

lemma filter_sortSlice:
  "\<forall>x\<in>set xs. \<forall>y\<in>set xs. P x \<and> P y \<longrightarrow> \<not> lt x y \<Longrightarrow>
   filter P (sortSlice lt xs) = filter P xs"
  by (simp add: sortSlice_def rev_filter [symmetric] filter_placed)

lemma sorted_insertLeft:
  fixes key :: "'a \<Rightarrow> int"
  assumes "\<forall>y\<in>set ys. lt x y = (key y < key x)" "sorted_wrt (\<lambda>a b. key a \<le> key b) ys"
  shows "sorted_wrt (\<lambda>a b. key a \<le> key b) (insertLeft lt x ys)"
  using assms
proof (induction ys)
  case Nil
  then show ?case by simp
next
  case (Cons y ys)
  have "set (insertLeft lt x ys) = insert x (set ys)"
    using mset_insertLeft [of lt x ys] by (metis set_mset_mset set_mset_add_mset_insert)
  with Cons show ?case by auto
qed

lemma sorted_placed:
  fixes key :: "'a \<Rightarrow> int"
  assumes "\<forall>x\<in>set (acc @ xs). \<forall>y\<in>set (acc @ xs). lt x y = (key y < key x)"
    "sorted_wrt (\<lambda>a b. key a \<le> key b) acc"
  shows "sorted_wrt (\<lambda>a b. key a \<le> key b) (foldl (\<lambda>placed x. insertLeft lt x placed) acc xs)"
  using assms
proof (induction xs arbitrary: acc)
  case Nil
  then show ?case by simp
next
  case (Cons x xs)
  have s: "set (insertLeft lt x acc) = insert x (set acc)"
    using mset_insertLeft [of lt x acc] by (metis set_mset_mset set_mset_add_mset_insert)
  have "sorted_wrt (\<lambda>a b. key a \<le> key b) (insertLeft lt x acc)"
    using Cons.prems by (intro sorted_insertLeft) auto
  moreover have "\<forall>a\<in>set (insertLeft lt x acc @ xs). \<forall>b\<in>set (insertLeft lt x acc @ xs). lt a b = (key b < key a)"
    using Cons.prems(1) s by simp
  ultimately show ?case using Cons.IH by simp
qed

lemma sorted_sortSlice:
  fixes key :: "'a \<Rightarrow> int"
  assumes "\<forall>x\<in>set xs. \<forall>y\<in>set xs. lt x y = (key y < key x)"
  shows "sorted_wrt (\<lambda>a b. key b \<le> key a) (sortSlice lt xs)"
proof -
  have "sorted_wrt (\<lambda>a b. key a \<le> key b) (foldl (\<lambda>placed x. insertLeft lt x placed) [] xs)"
    using assms by (intro sorted_placed) auto
  then show ?thesis
    by (simp add: sortSlice_def sorted_wrt_rev)
qed

subsection \<open>Prefix groups and retained digests\<close>

lemma lookup_appendTo:
  "lookupGroup (appendTo p e m) q = (if q = p then lookupGroup m q @ [e] else lookupGroup m q)"
  by (simp add: lookupGroup_def appendTo_def map_of_map_default split: option.splits)

lemma lookup_groupTags:
  "lookupGroup (groupTags prefixes e ts m) q =
   lookupGroup m q @ replicate (length (filedUnder prefixes q ts)) e"
proof (induction ts arbitrary: m)
  case Nil
  then show ?case by (simp add: filedUnder_def)
next
  case (Cons tag ts)
  show ?case
    by (cases "firstMatch prefixes tag")
       (simp_all add: Cons.IH lookup_appendTo filedUnder_def replicate_app_Cons_same)
qed

lemma lookup_groupImages:
  "lookupGroup (groupImages prefixes images m) q =
   lookupGroup m q @ concat (map (entriesOf prefixes q) images)"
proof (induction images arbitrary: m)
  case Nil
  then show ?case by simp
next
  case (Cons img images)
  show ?case
  proof (cases "ImagePushedAt img")
    case None
    then show ?thesis by (simp add: Cons.IH entriesOf_def)
  next
    case (Some t)
    then show ?thesis
      by (cases "ImageTags img = []")
         (simp_all add: Cons.IH entriesOf_def lookup_groupTags filedUnder_def)
  qed
qed

lemma groupOf_entries:
  "groupOf prefixes images q = concat (map (entriesOf prefixes q) images)"
  using lookup_groupImages [of prefixes images "[]" q]
  by (simp add: groupOf_def lookupGroup_def prefixMatchMap_def)

lemma distinct_groupTags:
  "distinct (map fst m) \<Longrightarrow> distinct (map fst (groupTags prefixes e ts m))"
  by (induction ts arbitrary: m)
     (auto simp: appendTo_def distinct_map_default split: option.splits)

lemma distinct_groupImages:
  "distinct (map fst m) \<Longrightarrow> distinct (map fst (groupImages prefixes images m))"
  by (induction images arbitrary: m)
     (auto simp: distinct_groupTags split: option.splits)

lemma distinct_prefixMatchMap: "distinct (map fst (prefixMatchMap prefixes images))"
  by (simp add: prefixMatchMap_def distinct_groupImages)

lemma fold_retain:
  "fold (\<lambda>e rd. rd(digest e := True)) xs rd d \<longleftrightarrow> rd d \<or> d \<in> digest ` set xs"
proof (induction xs arbitrary: rd)
  case Nil
  then show ?case by simp
next
  case (Cons x xs)
  show ?case unfolding fold_simps Cons.IH by auto
qed

lemma retainTop_iff:
  "retainTop ranked rd d \<longleftrightarrow> rd d \<or> d \<in> digest ` set (take 2 ranked)"
  unfolding retainTop_def by (rule fold_retain)

lemma retainGroups_iff:
  "retainGroups m rd d \<longleftrightarrow>
   rd d \<or> (\<exists>pl\<in>set m. d \<in> digest ` set (take 2 (sortSlice byPushedTime (snd pl))))"
proof (induction m arbitrary: rd)
  case Nil
  then show ?case by simp
next
  case (Cons pl m)
  obtain p l where pl: "pl = (p, l)" by (cases pl)
  show ?case
    unfolding pl retainGroups.simps Cons.IH retainTop_iff by auto
qed

lemma retainedDigests_iff:
  "retainedDigests prefixes images d \<longleftrightarrow>
   (\<exists>p. d \<in> digest ` set (take 2 (sortSlice byPushedTime (groupOf prefixes images p))))"
proof -
  have nil: "sortSlice byPushedTime [] = []" by (simp add: sortSlice_def)
  have "(\<exists>pl\<in>set (prefixMatchMap prefixes images). d \<in> digest ` set (take 2 (sortSlice byPushedTime (snd pl))))
      \<longleftrightarrow> (\<exists>p. d \<in> digest ` set (take 2 (sortSlice byPushedTime (groupOf prefixes images p))))"
    (is "?L \<longleftrightarrow> ?R")
  proof
    assume ?L
    then obtain p l where pl: "(p, l) \<in> set (prefixMatchMap prefixes images)"
      and d: "d \<in> digest ` set (take 2 (sortSlice byPushedTime l))" by force
    from pl have "map_of (prefixMatchMap prefixes images) p = Some l"
      using distinct_prefixMatchMap by simp
    then have "groupOf prefixes images p = l" by (simp add: groupOf_def lookupGroup_def)
    with d show ?R by auto
  next
    assume ?R
    then obtain p where d: "d \<in> digest ` set (take 2 (sortSlice byPushedTime (groupOf prefixes images p)))"
      by auto
    show ?L
    proof (cases "map_of (prefixMatchMap prefixes images) p")
      case None
      with d show ?thesis by (simp add: groupOf_def lookupGroup_def nil)
    next
      case (Some l)
      then have "(p, l) \<in> set (prefixMatchMap prefixes images)" by (rule map_of_SomeD)
      moreover from Some d have "d \<in> digest ` set (take 2 (sortSlice byPushedTime l))"
        by (simp add: groupOf_def lookupGroup_def)
      ultimately show ?thesis by force
    qed
  qed
  then show ?thesis unfolding retainedDigests_def retainGroups_iff by simp
qed

subsection \<open>Rounding and the age of an image\<close>

lemma roundEven_bounds: "\<lfloor>y\<rfloor> \<le> roundEven y \<and> roundEven y \<le> \<lceil>y\<rceil>"
proof (cases "y = of_int \<lfloor>y\<rfloor>")
  case True
  then have "y - of_int \<lfloor>y\<rfloor> = 0" by simp
  then show ?thesis by (simp add: roundEven_def Let_def floor_le_ceiling)
next
  case False
  then have "\<lceil>y\<rceil> = \<lfloor>y\<rfloor> + 1" by (simp add: ceiling_altdef)
  then show ?thesis by (simp add: roundEven_def Let_def)
qed

lemma roundEven_ge: "of_int k \<le> y \<Longrightarrow> k \<le> roundEven y"
  using roundEven_bounds [of y] by (meson le_floor_iff order_trans)

lemma roundEven_le: "y \<le> of_int k \<Longrightarrow> roundEven y \<le> k"
  using roundEven_bounds [of y] by (meson ceiling_le_iff order_trans)

lemma ilog2_le_52:
  assumes "0 < x" "x < 2 ^ 53"
  shows "ilog2 x \<le> 52"
proof (cases "1 \<le> x")
  case True
  have "\<lfloor>x\<rfloor> < 2 ^ 53"
    using assms(2) by (simp add: floor_less_iff)
  then have "bitlen \<lfloor>x\<rfloor> \<le> 53"
    by (simp add: bitlen_le_iff_power)
  with True show ?thesis by (simp add: ilog2_def)
next
  case False
  then show ?thesis
    using bitlen_nonneg [of "\<lceil>1 / x\<rceil> - 1"] by (simp add: ilog2_def)
qed

lemma float64_scaled:
  assumes "0 < x" "x < 2 ^ 53"
  obtains N :: nat where "0 < N" "float64 x = of_int (roundEven (x * of_nat N)) / of_nat N"
proof -
  define e where "e = ilog2 x"
  have e: "e \<le> 52" using assms by (simp add: e_def ilog2_le_52)
  define N :: nat where "N = 2 ^ nat (52 - e)"
  have q: "(2::rat) powi (e - 52) = 1 / of_nat N"
    using e by (simp add: N_def power_int_def field_simps)
  have "float64 x = of_int (roundEven (x * of_nat N)) / of_nat N"
    using assms(1) by (simp add: float64_def Let_def e_def [symmetric] q)
  moreover have "0 < N" by (simp add: N_def)
  ultimately show thesis using that by blast
qed

lemma float64_le_int:
  assumes "0 < x" "x < 2 ^ 53" "x \<le> of_int n"
  shows "float64 x \<le> of_int n"
proof -
  obtain N :: nat where N: "0 < N" "float64 x = of_int (roundEven (x * of_nat N)) / of_nat N"
    using assms(1,2) by (rule float64_scaled)
  have "x * of_nat N \<le> of_int (n * int N)"
    using assms(3) N(1) by (simp add: mult_right_mono)
  then have "roundEven (x * of_nat N) \<le> n * int N" by (rule roundEven_le)
  then have "(of_int (roundEven (x * of_nat N)) :: rat) \<le> of_int (n * int N)"
    by (simp only: of_int_le_iff)
  then have "(of_int (roundEven (x * of_nat N)) :: rat) / of_nat N \<le> of_int (n * int N) / of_nat N"
    by (rule divide_right_mono) simp
  then show ?thesis using N by simp
qed

lemma float64_ge_int:
  assumes "0 < x" "x < 2 ^ 53" "of_int n \<le> x"
  shows "of_int n \<le> float64 x"
proof -
  obtain N :: nat where N: "0 < N" "float64 x = of_int (roundEven (x * of_nat N)) / of_nat N"
    using assms(1,2) by (rule float64_scaled)
  have "of_int (n * int N) \<le> x * of_nat N"
    using assms(3) N(1) by (simp add: mult_right_mono)
  then have "n * int N \<le> roundEven (x * of_nat N)" by (rule roundEven_ge)
  then have "(of_int (n * int N) :: rat) \<le> of_int (roundEven (x * of_nat N))"
    by (simp only: of_int_le_iff)
  then have "(of_int (n * int N) :: rat) / of_nat N \<le> of_int (roundEven (x * of_nat N)) / of_nat N"
    by (rule divide_right_mono) simp
  then show ?thesis using N by simp
qed

lemma float64_between:
  assumes "of_int m \<le> x" "x \<le> of_int n" "0 \<le> m" "n < 2 ^ 53"
  shows "of_int m \<le> float64 x \<and> float64 x \<le> of_int n"
proof (cases "x = 0")
  case True
  with assms show ?thesis by (simp add: float64_def)
next
  case False
  have "(0::rat) \<le> of_int m" using assms(3) by simp
  with assms(1) False have pos: "0 < x" by linarith
  show ?thesis
  proof (cases "x = of_int n")
    case True
    have lt: "x < of_int (n + 1)" using True by simp
    have "n + 1 \<le> 2 ^ 53" using assms(4) by simp
    have "x < 2 ^ 53" using True assms(4)
      by (metis of_int_less_iff of_int_numeral of_int_power)
    with pos assms show ?thesis
      by (simp add: float64_le_int float64_ge_int)
  next
    case False
    have "(of_int n :: rat) < 2 ^ 53" using assms(4)
      by (metis of_int_less_iff of_int_numeral of_int_power)
    with assms(2) have "x < 2 ^ 53" by simp
    with pos assms show ?thesis
      by (simp add: float64_le_int float64_ge_int)
  qed
qed

lemma float64_of_int:
  assumes "0 \<le> n" "n < 2 ^ 53"
  shows "float64 (of_int n) = of_int n"
  using float64_between [of n "of_int n" n] assms by simp

lemma quo_nonneg: "0 \<le> d \<Longrightarrow> quo d Hour = d div Hour"
  by (cases "d = 0") (simp_all add: quo_def Hour_def)

lemma rem_nonneg: "0 \<le> d \<Longrightarrow> rem d Hour = d mod Hour"
  by (simp add: rem_def quo_nonneg minus_mult_div_eq_mod)

lemma hours_range:
  assumes "0 \<le> d" "d < 2 ^ 63"
  shows "0 \<le> d div Hour \<and> d div Hour \<le> 2562047"
proof -
  have "d \<le> 9223372036854775807" using assms(2) by simp
  then have "d div 3600000000000 \<le> 9223372036854775807 div 3600000000000"
    by (rule zdiv_mono1) simp
  also have "\<dots> = (2562047::int)" by simp
  finally have "d div Hour \<le> 2562047" by (simp add: Hour_def)
  moreover have "0 \<le> d div Hour"
    using assms(1) by (simp add: Hour_def pos_imp_zdiv_nonneg_iff)
  ultimately show ?thesis by simp
qed


lemma Hours_bounds:
  assumes "0 \<le> d" "d < 2 ^ 63"
  shows "of_int (d div Hour) \<le> Hours d \<and> Hours d \<le> of_int (d div Hour + 1)"
proof -
  define h where "h = d div Hour"
  define r where "r = d mod Hour"
  have h: "0 \<le> h" "h \<le> 2562047"
    using hours_range [OF assms] by (simp_all add: h_def)
  have "(2562048::int) < 2 ^ 53" by simp
  with h have h53: "h < 2 ^ 53" "h + 1 < 2 ^ 53" by linarith+
  have r: "0 \<le> r" "r < 3600000000000"
    using pos_mod_bound [of Hour d] pos_mod_sign [of Hour d] by (simp_all add: r_def Hour_def)
  have "(3600000000000::int) < 2 ^ 53" by simp
  with r have r53: "r < 2 ^ 53" by linarith
  have fh: "float64 (of_int h) = of_int h"
    using h(1) h53(1) by (rule float64_of_int)
  have fr: "float64 (of_int r) = of_int r"
    using r(1) r53 by (rule float64_of_int)
  have r0: "of_int 0 \<le> (of_int r :: rat) / 3600000000000"
    using r(1) by simp
  have "(of_int r :: rat) \<le> of_int 3600000000000"
    using r(2) by (simp only: of_int_le_iff)
  then have r1: "(of_int r :: rat) / 3600000000000 \<le> of_int 1" by simp
  have f: "of_int 0 \<le> float64 (of_int r / 3600000000000)
      \<and> float64 (of_int r / 3600000000000) \<le> of_int 1"
    using r0 r1 by (rule float64_between) simp_all
  have lo: "of_int h \<le> of_int h + float64 (of_int r / 3600000000000)"
    using f by simp
  have hi: "of_int h + float64 (of_int r / 3600000000000) \<le> of_int (h + 1)"
    using f by simp
  have "of_int h \<le> float64 (of_int h + float64 (of_int r / 3600000000000))
      \<and> float64 (of_int h + float64 (of_int r / 3600000000000)) \<le> of_int (h + 1)"
    using lo hi h(1) h53(2) by (rule float64_between)
  moreover have "Hours d = float64 (of_int h + float64 (of_int r / 3600000000000))"
    unfolding Hours_def quo_nonneg [OF assms(1)] rem_nonneg [OF assms(1)]
      h_def [symmetric] r_def [symmetric] fh fr ..
  ultimately show ?thesis by (simp only: h_def)
qed


lemma imageAge_bounds:
  assumes "t \<le> now"
  shows "imageAge now t = Sub now t div (24 * Hour) \<or> imageAge now t = Sub now t div (24 * Hour) + 1"
proof -
  define d where "d = Sub now t"
  have d: "0 \<le> d" "d < 2 ^ 63" using assms by (simp_all add: d_def Sub_def)
  define h where "h = d div Hour"
  define k where "k = h div 24"
  have h: "0 \<le> h" "h \<le> 2562047"
    using hours_range [OF d] by (simp_all add: h_def)
  have k0: "0 \<le> k" using h(1) by (simp add: k_def pos_imp_zdiv_nonneg_iff)
  have klo: "k * 24 \<le> h" by (simp add: k_def)
  have "(2562048::int) < 2 ^ 53" by simp
  with klo k0 h(2) have k53: "k + 1 < 2 ^ 53" by linarith
  have "h mod 24 < 24" by simp
  then have khi: "h + 1 \<le> (k + 1) * 24"
    using div_mult_mod_eq [of h 24] by (simp add: k_def)
  have H: "of_int h \<le> Hours d" "Hours d \<le> of_int (h + 1)"
    using Hours_bounds [OF d] by (simp_all only: h_def)
  have "(of_int (k * 24) :: rat) \<le> of_int h" using klo by (simp only: of_int_le_iff)
  with H(1) have lo: "of_int k \<le> Hours d / 24" by simp
  have "(of_int (h + 1) :: rat) \<le> of_int ((k + 1) * 24)" using khi by (simp only: of_int_le_iff)
  with H(2) have hi: "Hours d / 24 \<le> of_int (k + 1)" by simp
  have b: "of_int k \<le> float64 (Hours d / 24) \<and> float64 (Hours d / 24) \<le> of_int (k + 1)"
    using lo hi k0 k53 by (rule float64_between)
  have "(0::rat) \<le> of_int k" using k0 by simp
  with b have nn: "0 \<le> float64 (Hours d / 24)" by linarith
  have f1: "k \<le> \<lfloor>float64 (Hours d / 24)\<rfloor>" using b by (simp add: le_floor_iff)
  have "\<lfloor>float64 (Hours d / 24)\<rfloor> \<le> \<lfloor>(of_int (k + 1) :: rat)\<rfloor>"
    using b by (intro floor_mono) simp
  then have f2: "\<lfloor>float64 (Hours d / 24)\<rfloor> \<le> k + 1" by (simp only: floor_of_int)
  have "imageAge now t = \<lfloor>float64 (Hours d / 24)\<rfloor>"
    using nn by (simp add: imageAge_def truncInt_def d_def [symmetric])
  with f1 f2 have "imageAge now t = k \<or> imageAge now t = k + 1" by linarith
  moreover have "k = d div (24 * Hour)"
    by (simp add: k_def h_def Hour_def div_mult2_eq)
  ultimately show ?thesis by (simp only: d_def)
qed


lemma float64_zero: "float64 0 = 0"
  by (simp add: float64_def)

lemma imageAge_whole_days:
  assumes "0 \<le> n" "n \<le> 106751"
  shows "imageAge (t + n * (24 * Hour)) t = n"
proof -
  define d where "d = n * (24 * Hour)"
  have d: "0 \<le> d" "d \<le> 9223286400000000000"
    using assms by (simp_all add: d_def Hour_def)
  then have sub: "Sub (t + d) t = d" by (simp add: Sub_def)
  have q: "quo d Hour = n * 24"
    using quo_nonneg [OF d(1)] by (simp add: d_def Hour_def)
  have r: "rem d Hour = 0"
    using rem_nonneg [OF d(1)] by (simp add: d_def Hour_def)
  have "(2562024::int) < 2 ^ 53" by simp
  with assms have n24: "0 \<le> n * 24" "n * 24 < 2 ^ 53" by linarith+
  have "(106751::int) < 2 ^ 53" by simp
  with assms have n53: "n < 2 ^ 53" by linarith
  have h: "Hours d = of_int (n * 24)"
    unfolding Hours_def q r using float64_of_int [OF n24] by (simp add: float64_zero)
  have "float64 (Hours d / 24) = float64 (of_int n)"
    by (simp add: h)
  also have "\<dots> = of_int n" using assms(1) n53 by (rule float64_of_int)
  finally have "imageAge (t + d) t = n"
    using assms(1) by (simp add: imageAge_def sub truncInt_def)
  then show ?thesis by (simp only: d_def)
qed

subsection \<open>The loops over the images\<close>

lemma processImages_contains:
  "img \<in> set images \<Longrightarrow> ImagePushedAt img = Some t \<Longrightarrow>
   \<exists>j. set (processImage svc r ret dry retained (clock j) img t)
        \<subseteq> set (processImages svc r ret dry retained clock k images)"
proof (induction images arbitrary: k)
  case Nil
  then show ?case by simp
next
  case (Cons x xs)
  show ?case
  proof (cases "x = img")
    case True
    with Cons.prems show ?thesis by auto
  next
    case False
    with Cons.prems have mem: "img \<in> set xs" by simp
    show ?thesis
    proof (cases "ImagePushedAt x")
      case None
      with Cons.IH [OF mem Cons.prems(2), of k] show ?thesis by auto
    next
      case (Some u)
      with Cons.IH [OF mem Cons.prems(2), of "Suc k"] show ?thesis by auto
    qed
  qed
qed

lemma processImages_clock:
  "\<forall>j < length (filter (\<lambda>i. ImagePushedAt i \<noteq> None) images). clock (k + j) = clock' (k + j) \<Longrightarrow>
   processImages svc r ret dry retained clock k images
   = processImages svc r ret dry retained clock' k images"
proof (induction images arbitrary: k)
  case Nil
  then show ?case by simp
next
  case (Cons x xs)
  show ?case
  proof (cases "ImagePushedAt x")
    case None
    with Cons.prems have "\<forall>j < length (filter (\<lambda>i. ImagePushedAt i \<noteq> None) xs). clock (k + j) = clock' (k + j)"
      by simp
    from Cons.IH [OF this] None show ?thesis by simp
  next
    case (Some t)
    with Cons.prems have all: "\<forall>j < Suc (length (filter (\<lambda>i. ImagePushedAt i \<noteq> None) xs)). clock (k + j) = clock' (k + j)"
      by simp
    then have here: "clock k = clock' k" by (metis add.right_neutral zero_less_Suc)
    have "\<forall>j < length (filter (\<lambda>i. ImagePushedAt i \<noteq> None) xs). clock (Suc k + j) = clock' (Suc k + j)"
    proof (intro allI impI)
      fix j assume "j < length (filter (\<lambda>i. ImagePushedAt i \<noteq> None) xs)"
      then have "Suc j < Suc (length (filter (\<lambda>i. ImagePushedAt i \<noteq> None) xs))" by simp
      with all have "clock (k + Suc j) = clock' (k + Suc j)" by blast
      then show "clock (Suc k + j) = clock' (Suc k + j)" by simp
    qed
    from Cons.IH [OF this] here Some show ?thesis by simp
  qed
qed

subsection \<open>Matching and the partition of the images\<close>

lemma anyPrefix_iff: "anyPrefix prefixes tag \<longleftrightarrow> (\<exists>p\<in>set prefixes. HasPrefix tag p)"
  by (induction prefixes) auto

lemma matched_iff:
  "matched prefixes ts \<longleftrightarrow> (\<exists>tag\<in>set ts. \<exists>p\<in>set prefixes. HasPrefix tag p)"
  by (induction ts) (auto simp: anyPrefix_iff)

lemma firstMatch_None: "firstMatch prefixes tag = None \<longleftrightarrow> (\<forall>p\<in>set prefixes. \<not> HasPrefix tag p)"
  by (induction prefixes) auto

lemma firstMatch_Some: "firstMatch prefixes tag = Some p \<Longrightarrow> p \<in> set prefixes \<and> HasPrefix tag p"
  by (induction prefixes) (auto split: if_splits)

lemma HasPrefix_empty: "HasPrefix tag []"
  by (simp add: HasPrefix_def)

lemma partitionImages_eq:
  "partitionImages prefixes images (tm, ut) =
   (tm @ filter (\<lambda>i. ImagePushedAt i \<noteq> None \<and> ImageTags i \<noteq> [] \<and> matched prefixes (ImageTags i)) images,
    ut @ filter (\<lambda>i. ImagePushedAt i \<noteq> None \<and> ImageTags i = []) images)"
  by (induction images arbitrary: tm ut) auto

lemma untaggedImages_eq:
  "untaggedImages prefixes images = filter (\<lambda>i. ImagePushedAt i \<noteq> None \<and> ImageTags i = []) images"
  by (simp add: untaggedImages_def partitionImages_eq)

lemma rankedMatches_eq:
  "rankedMatches prefixes images =
   sortSlice byPushedAt
     (filter (\<lambda>i. ImagePushedAt i \<noteq> None \<and> ImageTags i \<noteq> [] \<and> matched prefixes (ImageTags i)) images)"
  by (simp add: rankedMatches_def partitionImages_eq)

lemma set_rankedMatches:
  "set (rankedMatches prefixes images) =
   {i \<in> set images. ImagePushedAt i \<noteq> None \<and> ImageTags i \<noteq> [] \<and> matched prefixes (ImageTags i)}"
  by (simp add: rankedMatches_eq set_sortSlice)

lemma deleteAll_member:
  "img \<in> set xs \<Longrightarrow>
   (if dryRun then LogDryRun (ImageDigest img) else BatchDeleteImage repoName (ImageDigest img))
     \<in> set (deleteAll svc repoName dryRun xs)"
  by (induction xs) (auto simp: deleteImage_def)


subsection \<open>Entries of a group\<close>

lemma digest_entriesOf: "e \<in> set (entriesOf prefixes p x) \<Longrightarrow> digest e = ImageDigest x"
  by (auto simp: entriesOf_def entryOf_def split: option.splits)

lemma filter_entries_other:
  "ImageDigest x \<noteq> d \<Longrightarrow> filter (\<lambda>e. digest e = d) (entriesOf prefixes p x) = []"
  by (auto simp: filter_empty_conv dest: digest_entriesOf)

lemma filter_entries_same:
  "filter (\<lambda>e. digest e = ImageDigest x) (entriesOf prefixes p x) = entriesOf prefixes p x"
  by (auto simp: filter_id_conv dest: digest_entriesOf)

lemma filter_entries_absent:
  "\<forall>x\<in>set images. ImageDigest x \<noteq> d \<Longrightarrow>
   filter (\<lambda>e. digest e = d) (concat (map (entriesOf prefixes p) images)) = []"
  by (induction images) (simp_all add: filter_entries_other)

lemma filter_group_by_digest:
  "distinct (map ImageDigest images) \<Longrightarrow> img \<in> set images \<Longrightarrow>
   filter (\<lambda>e. digest e = ImageDigest img) (groupOf prefixes images p) = entriesOf prefixes p img"
proof (induction images)
  case Nil
  then show ?case by simp
next
  case (Cons x xs)
  show ?case
  proof (cases "x = img")
    case True
    from Cons.prems(1) True have "\<forall>y\<in>set xs. ImageDigest y \<noteq> ImageDigest img"
      by (metis distinct.simps(2) image_eqI list.simps(9) set_map)
    then have "filter (\<lambda>e. digest e = ImageDigest img) (concat (map (entriesOf prefixes p) xs)) = []"
      by (rule filter_entries_absent)
    with True show ?thesis by (simp add: groupOf_entries filter_entries_same)
  next
    case False
    with Cons.prems have mem: "img \<in> set xs" and d: "distinct (map ImageDigest xs)" by simp_all
    from Cons.prems(1) mem have "ImageDigest x \<noteq> ImageDigest img" by auto
    with Cons.IH [OF d mem] show ?thesis
      by (simp add: groupOf_entries filter_entries_other)
  qed
qed

lemma group_member_iff:
  "e \<in> set (groupOf prefixes images p) \<longleftrightarrow>
   (\<exists>img\<in>set images. \<exists>t. ImagePushedAt img = Some t \<and> e = entryOf img t
      \<and> (\<exists>tag\<in>set (ImageTags img). firstMatch prefixes tag = Some p))"
proof -
  have one: "e \<in> set (entriesOf prefixes p img) \<longleftrightarrow>
      (\<exists>t. ImagePushedAt img = Some t \<and> e = entryOf img t
        \<and> (\<exists>tag\<in>set (ImageTags img). firstMatch prefixes tag = Some p))" for img
    by (cases "ImagePushedAt img")
       (auto simp: entriesOf_def filedUnder_def filter_empty_conv)
  show ?thesis
    unfolding groupOf_entries by (simp add: one)
qed

lemma filter_sorted_takeWhile:
  fixes key :: "'a \<Rightarrow> int"
  shows "sorted_wrt (\<lambda>a b. key b \<le> key a) xs \<Longrightarrow>
   filter (\<lambda>e. t \<le> key e) xs = takeWhile (\<lambda>e. t \<le> key e) xs"
proof (induction xs)
  case Nil
  then show ?case by simp
next
  case (Cons x xs)
  show ?case
  proof (cases "t \<le> key x")
    case True
    with Cons show ?thesis by simp
  next
    case False
    with Cons.prems have "\<forall>y\<in>set xs. \<not> t \<le> key y" by auto
    then have "filter (\<lambda>e. t \<le> key e) xs = []" by (simp add: filter_empty_conv)
    with False show ?thesis by simp
  qed
qed

lemma filter_eq_replicate: "filter (\<lambda>e. e = E) xs = replicate (length (filter (\<lambda>e. e = E) xs)) E"
  by (induction xs) auto

lemma sorted_group:
  "sorted_wrt (\<lambda>a b. pushedTime b \<le> pushedTime a) (sortSlice byPushedTime g)"
  by (rule sorted_sortSlice) (simp add: byPushedTime_def After_def)

lemma top_two_duplicates:
  assumes two: "2 \<le> length (filter (\<lambda>e. e = E) g)"
    and others: "\<forall>e\<in>set g. e \<noteq> E \<longrightarrow> pushedTime e < pushedTime E"
  shows "take 2 (sortSlice byPushedTime g) = [E, E]"
proof -
  let ?s = "sortSlice byPushedTime g"
  let ?P = "\<lambda>e. pushedTime E \<le> pushedTime e"
  have PE: "?P e \<longleftrightarrow> e = E" if "e \<in> set g" for e
    using others that by auto
  have "filter ?P ?s = filter (\<lambda>e. e = E) ?s"
    by (rule filter_cong) (simp_all add: set_sortSlice PE)
  also have "\<dots> = replicate (length (filter (\<lambda>e. e = E) ?s)) E"
    by (rule filter_eq_replicate)
  also have "length (filter (\<lambda>e. e = E) ?s) = length (filter (\<lambda>e. e = E) g)"
  proof (rule mset_eq_length)
    show "mset (filter (\<lambda>e. e = E) ?s) = mset (filter (\<lambda>e. e = E) g)"
      by (simp only: mset_filter mset_sortSlice)
  qed
  finally have f: "filter ?P ?s = replicate (length (filter (\<lambda>e. e = E) g)) E" .
  have "filter ?P ?s = takeWhile ?P ?s"
    using sorted_group by (rule filter_sorted_takeWhile)
  with f have tw: "takeWhile ?P ?s = replicate (length (filter (\<lambda>e. e = E) g)) E" by simp
  define k where "k = length (filter (\<lambda>e. e = E) g) - 2"
  have k: "length (filter (\<lambda>e. e = E) g) = Suc (Suc k)"
    using two by (simp add: k_def)
  have "?s = takeWhile ?P ?s @ dropWhile ?P ?s" by simp
  then have "?s = E # E # (replicate k E @ dropWhile ?P ?s)"
    by (simp add: tw k)
  then have "take 2 ?s = take 2 (E # E # (replicate k E @ dropWhile ?P ?s))" by simp
  then show ?thesis by (simp add: numeral_2_eq_2)
qed

subsection \<open>Decisions in the output\<close>

lemma decisionA_deleteAll:
  "concat (map decisionA (deleteAll svc repoName dryRun xs)) = map ImageDigest xs"
  by (induction xs) (simp_all add: deleteImage_def)

lemma decisionA_run:
  "concat (map decisionA (cleanupRepositoryA svc prefixList dryRun repoName images))
   = map ImageDigest (take 2 (rankedMatches (Split prefixList) images)
        @ toDelete (rankedMatches (Split prefixList) images)
                   (untaggedImages (Split prefixList) images))"
proof (cases "images = []")
  case True
  then show ?thesis
    by (simp add: cleanupRepositoryA_def rankedMatches_eq untaggedImages_eq toDelete_def sortSlice_def)
next
  case False
  have "concat (map decisionA (map (\<lambda>img. LogRetaining (ImageDigest img)) xs)) = map ImageDigest xs" for xs
    by (induction xs) simp_all
  with False show ?thesis
    by (simp add: cleanupRepositoryA_def Let_def decisionA_deleteAll)
qed

lemma fold_keep:
  "fold (\<lambda>img m. m(ImageDigest img \<mapsto> True)) xs m d = None
   \<longleftrightarrow> m d = None \<and> d \<notin> ImageDigest ` set xs"
proof (induction xs arbitrary: m)
  case Nil
  then show ?case by simp
next
  case (Cons x xs)
  show ?case unfolding fold_simps Cons.IH by auto
qed

lemma keepMap_None: "keepMap ranked d = None \<longleftrightarrow> d \<notin> ImageDigest ` set (take 2 ranked)"
  unfolding keepMap_def fold_keep by simp

lemma filter_not_in_take:
  assumes "distinct (map f xs)"
  shows "filter (\<lambda>x. f x \<notin> f ` set (take n xs)) xs = drop n xs"
proof -
  have "distinct (map f (take n xs @ drop n xs))"
    using assms by simp
  then have d: "distinct (map f (take n xs) @ map f (drop n xs))"
    by (simp only: map_append)
  have "filter (\<lambda>x. f x \<notin> f ` set (take n xs)) (take n xs) = []"
    by (simp add: filter_empty_conv)
  moreover have "filter (\<lambda>x. f x \<notin> f ` set (take n xs)) (drop n xs) = drop n xs"
    using d by (auto simp: filter_id_conv)
  ultimately have "filter (\<lambda>x. f x \<notin> f ` set (take n xs)) (take n xs @ drop n xs) = drop n xs"
    by (simp only: filter_append append_Nil)
  then show ?thesis by simp
qed

lemma distinct_rankedMatches:
  assumes "distinct (map ImageDigest images)"
  shows "distinct (map ImageDigest (rankedMatches prefixes images))"
proof -
  let ?m = "filter (\<lambda>i. ImagePushedAt i \<noteq> None \<and> ImageTags i \<noteq> [] \<and> matched prefixes (ImageTags i)) images"
  have eq: "mset (map ImageDigest (rankedMatches prefixes images)) = mset (map ImageDigest ?m)"
    by (simp add: rankedMatches_eq mset_sortSlice)
  have "distinct (map ImageDigest ?m)"
    using assms by (rule distinct_map_filter)
  with mset_eq_imp_distinct_iff [OF eq] show ?thesis by simp
qed

lemma count_filtered:
  "distinct (map f xs) \<Longrightarrow> x \<in> set xs \<Longrightarrow>
   count_list (map f (filter Q xs)) (f x) = (if Q x then 1 else 0)"
proof (induction xs)
  case Nil
  then show ?case by simp
next
  case (Cons y ys)
  show ?case
  proof (cases "y = x")
    case True
    have "f x \<notin> set (map f (filter Q ys))" using Cons.prems(1) True by auto
    then have "count_list (map f (filter Q ys)) (f x) = 0" by (rule count_notin)
    with True show ?thesis by simp
  next
    case False
    with Cons.prems have "x \<in> set ys" "distinct (map f ys)" "f y \<noteq> f x" by auto
    with Cons.IH show ?thesis by simp
  qed
qed

lemma decisionsA_digests:
  assumes "distinct (map ImageDigest images)"
  shows "mset (concat (map decisionA (cleanupRepositoryA svc prefixList dryRun repoName images)))
       = mset (map ImageDigest (filter (\<lambda>i. ImagePushedAt i \<noteq> None \<and> ImageTags i \<noteq> []
                   \<and> matched (Split prefixList) (ImageTags i)) images))
         + mset (map ImageDigest (filter (\<lambda>i. ImagePushedAt i \<noteq> None \<and> ImageTags i = []) images))"
proof -
  let ?ps = "Split prefixList"
  let ?r = "rankedMatches ?ps images"
  let ?u = "untaggedImages ?ps images"
  have "filter (\<lambda>img. keepMap ?r (ImageDigest img) = None) ?r
      = filter (\<lambda>img. ImageDigest img \<notin> ImageDigest ` set (take 2 ?r)) ?r"
    by (simp add: keepMap_None)
  also have "\<dots> = drop 2 ?r"
    using distinct_rankedMatches [OF assms] by (rule filter_not_in_take)
  finally have "take 2 ?r @ toDelete ?r ?u = ?r @ ?u"
    by (simp add: toDelete_def)
  then have "concat (map decisionA (cleanupRepositoryA svc prefixList dryRun repoName images))
      = map ImageDigest ?r @ map ImageDigest ?u"
    by (simp add: decisionA_run)
  then show ?thesis
    by (simp add: rankedMatches_eq untaggedImages_eq mset_sortSlice)
qed

lemma decisionB_processImage:
  "concat (map decisionB (processImage svc repoName retention dryRun retained now img t))
   = (if ImageTags img = [] \<or> retained (ImageDigest img) \<or> retention < imageAge now t
      then [ImageDigest img] else [])"
  by (auto simp: processImage_def Let_def deleteImage_def)

lemma decisionB_absent:
  "\<forall>x\<in>set images. ImageDigest x \<noteq> d \<Longrightarrow>
   count_list (concat (map decisionB (processImages svc r ret dry retained clock k images))) d = 0"
proof (induction images arbitrary: k)
  case Nil
  then show ?case by simp
next
  case (Cons x xs)
  then show ?case
    by (cases "ImagePushedAt x") (simp_all add: decisionB_processImage)
qed

lemma decisionB_count:
  assumes "distinct (map ImageDigest images)" "img \<in> set images" "ImagePushedAt img = Some t"
  shows "count_list (concat (map decisionB (processImages svc r ret dry retained clock k images)))
           (ImageDigest img)
       = (if ImageTags img = [] \<or> retained (ImageDigest img)
             \<or> ret < imageAge (clock (k + clockIndex images img)) t then 1 else 0)"
  using assms
proof (induction images arbitrary: k)
  case Nil
  then show ?case by simp
next
  case (Cons x xs)
  show ?case
  proof (cases "x = img")
    case True
    have "\<forall>y\<in>set xs. ImageDigest y \<noteq> ImageDigest img"
      using Cons.prems(1) True by (metis distinct.simps(2) image_eqI list.simps(9) set_map)
    then have "count_list (concat (map decisionB
        (processImages svc r ret dry retained clock (Suc k) xs))) (ImageDigest img) = 0"
      by (rule decisionB_absent)
    with True Cons.prems(3) show ?thesis
      by (simp add: decisionB_processImage)
  next
    case False
    with Cons.prems have mem: "img \<in> set xs" and d: "distinct (map ImageDigest xs)" by simp_all
    from Cons.prems(1) mem have ne: "ImageDigest x \<noteq> ImageDigest img" by auto
    show ?thesis
    proof (cases "ImagePushedAt x")
      case None
      with Cons.IH [OF d mem Cons.prems(3), of k] False show ?thesis by simp
    next
      case (Some u)
      with Cons.IH [OF d mem Cons.prems(3), of "Suc k"] False ne show ?thesis
        by (simp add: decisionB_processImage)
    qed
  qed
qed

subsection \<open>The reading of the clock in the turn of an image\<close>

lemma processImages_append:
  "processImages svc r ret dry retained clock k (us @ ws)
   = processImages svc r ret dry retained clock k us
     @ processImages svc r ret dry retained clock
         (k + length (filter (\<lambda>i. ImagePushedAt i \<noteq> None) us)) ws"
proof (induction us arbitrary: k)
  case Nil
  then show ?case by simp
next
  case (Cons x us)
  show ?case
    by (cases "ImagePushedAt x") (simp_all add: Cons.IH)
qed

lemma processImages_at:
  assumes "ImagePushedAt img = Some t"
  shows "processImages svc r ret dry retained clock k (us @ img # vs)
   = processImages svc r ret dry retained clock k us
     @ processImage svc r ret dry retained
         (clock (k + length (filter (\<lambda>i. ImagePushedAt i \<noteq> None) us))) img t
     @ processImages svc r ret dry retained clock
         (Suc (k + length (filter (\<lambda>i. ImagePushedAt i \<noteq> None) us))) vs"
  using assms by (simp add: processImages_append)

lemma processImages_member_at:
  "e \<in> set (processImages svc r ret dry retained clock k images) \<Longrightarrow>
   \<exists>us img vs t. images = us @ img # vs \<and> ImagePushedAt img = Some t
      \<and> e \<in> set (processImage svc r ret dry retained
            (clock (k + length (filter (\<lambda>i. ImagePushedAt i \<noteq> None) us))) img t)"
proof (induction images arbitrary: k)
  case Nil
  then show ?case by simp
next
  case (Cons x xs)
  let ?n = "\<lambda>us. length (filter (\<lambda>i. ImagePushedAt i \<noteq> None) us)"
  have step: "\<exists>us img vs t. x # xs = us @ img # vs \<and> ImagePushedAt img = Some t
      \<and> e \<in> set (processImage svc r ret dry retained (clock (k + ?n us)) img t)"
    if rest: "e \<in> set (processImages svc r ret dry retained clock k' xs)"
      and k': "k' = k + ?n [x]" for k'
  proof -
    from Cons.IH [OF rest] obtain us img vs t where f: "xs = us @ img # vs"
      "ImagePushedAt img = Some t"
      "e \<in> set (processImage svc r ret dry retained (clock (k' + ?n us)) img t)"
      by blast
    have "x # xs = (x # us) @ img # vs" using f(1) by simp
    moreover have "k' + ?n us = k + ?n (x # us)" using k' by simp
    ultimately show ?thesis using f(2,3) by metis
  qed
  show ?case
  proof (cases "ImagePushedAt x")
    case None
    with Cons.prems have "e \<in> set (processImages svc r ret dry retained clock k xs)" by simp
    then show ?thesis using None by (intro step) simp_all
  next
    case (Some t)
    with Cons.prems consider
      "e \<in> set (processImage svc r ret dry retained (clock k) x t)"
      | "e \<in> set (processImages svc r ret dry retained clock (Suc k) xs)" by auto
    then show ?thesis
    proof cases
      case 1
      have "x # xs = [] @ x # xs" by simp
      moreover have "e \<in> set (processImage svc r ret dry retained (clock (k + ?n [])) x t)"
        using 1 by simp
      ultimately show ?thesis using Some by blast
    next
      case 2
      then show ?thesis using Some by (intro step) simp_all
    qed
  qed
qed

lemma processImage_delete_iff:
  "BatchDeleteImage r d \<in> set (processImage svc repoName retention dryRun retained now img t) \<longleftrightarrow>
   \<not> dryRun \<and> r = repoName \<and> d = ImageDigest img \<and> ImageTags img \<noteq> []
     \<and> \<not> retained (ImageDigest img) \<and> retention < imageAge now t"
  by (auto simp: processImage_def deleteImage_def Let_def)

subsection \<open>Images with the same push time\<close>

lemma stable_prefers_earlier:
  assumes eq: "filter P s = filter P (us @ a # vs)" and a: "P a"
    and b: "b \<notin> set us" "P b" "b \<in> set (take n s)"
  shows "a \<in> set (take n s)"
proof -
  let ?F1 = "filter P (take n s)" and ?F2 = "filter P (drop n s)"
  have "?F1 @ ?F2 = filter P (take n s @ drop n s)" by (simp only: filter_append)
  also have "\<dots> = filter P us @ a # filter P vs" using eq a by simp
  finally have "?F1 @ ?F2 = filter P us @ a # filter P vs" .
  then obtain ws where "?F1 = filter P us @ ws \<and> ws @ ?F2 = a # filter P vs
      \<or> ?F1 @ ws = filter P us \<and> ?F2 = ws @ a # filter P vs"
    by (auto simp: append_eq_append_conv2)
  moreover have inF1: "b \<in> set ?F1" using b(2,3) by simp
  moreover have notus: "b \<notin> set (filter P us)" using b(1) by simp
  ultimately have ws: "?F1 = filter P us @ ws" "ws @ ?F2 = a # filter P vs"
    by (metis Un_iff set_append)+
  have "ws \<noteq> []"
  proof
    assume "ws = []"
    with ws(1) inF1 notus show False by simp
  qed
  with ws(2) have "hd ws = a" by (cases ws) simp_all
  with \<open>ws \<noteq> []\<close> have "a \<in> set ws" by (metis hd_in_set)
  with ws(1) have "a \<in> set ?F1" by simp
  then show ?thesis by simp
qed

lemma entryOf_inj:
  "entryOf x u = entryOf b t \<Longrightarrow> ImagePushedAt x = Some u \<Longrightarrow> ImagePushedAt b = Some t \<Longrightarrow> x = b"
  by (simp add: entryOf_def)

lemma entries_of_earlier:
  assumes "b \<notin> set us" "ImagePushedAt b = Some t"
  shows "entryOf b t \<notin> set (concat (map (entriesOf prefixes p) us))"
proof
  assume "entryOf b t \<in> set (concat (map (entriesOf prefixes p) us))"
  then obtain x where x: "x \<in> set us" "entryOf b t \<in> set (entriesOf prefixes p x)" by auto
  then obtain u where u: "ImagePushedAt x = Some u" "entryOf b t = entryOf x u"
    by (cases "ImagePushedAt x") (auto simp: entriesOf_def)
  from entryOf_inj [OF u(2) [symmetric] u(1) assms(2)] x(1) assms(1) show False by simp
qed

lemma group_split:
  assumes "ImagePushedAt a = Some t" "filedUnder prefixes p (ImageTags a) \<noteq> []"
  shows "\<exists>rest. groupOf prefixes (us @ a # vs) p
     = concat (map (entriesOf prefixes p) us) @ entryOf a t # rest"
proof -
  obtain k where k: "length (filedUnder prefixes p (ImageTags a)) = Suc k"
    using assms(2) by (cases "filedUnder prefixes p (ImageTags a)") auto
  have "entriesOf prefixes p a = entryOf a t # replicate k (entryOf a t)"
    using assms(1) k by (simp add: entriesOf_def)
  then have "groupOf prefixes (us @ a # vs) p
      = concat (map (entriesOf prefixes p) us)
        @ entryOf a t # (replicate k (entryOf a t) @ concat (map (entriesOf prefixes p) vs))"
    by (simp add: groupOf_entries)
  then show ?thesis by blast
qed

lemma ranked_by_push_time:
  "sorted_wrt (\<lambda>a b. \<exists>t u. ImagePushedAt a = Some t \<and> ImagePushedAt b = Some u \<and> u \<le> t)
     (rankedMatches prefixes images)"
proof -
  let ?M = "\<lambda>i. ImagePushedAt i \<noteq> None \<and> ImageTags i \<noteq> [] \<and> matched prefixes (ImageTags i)"
  let ?m = "filter ?M images"
  let ?key = "\<lambda>i. case ImagePushedAt i of None \<Rightarrow> 0 | Some u \<Rightarrow> u"
  have cmp: "\<forall>x\<in>set ?m. \<forall>y\<in>set ?m. byPushedAt x y = (?key y < ?key x)"
    by (auto simp: byPushedAt_def After_def)
  then have "sorted_wrt (\<lambda>a b. ?key b \<le> ?key a) (sortSlice byPushedAt ?m)"
    by (rule sorted_sortSlice)
  then have "sorted_wrt (\<lambda>a b. \<exists>t u. ImagePushedAt a = Some t \<and> ImagePushedAt b = Some u \<and> u \<le> t)
      (sortSlice byPushedAt ?m)"
  proof (rule sorted_wrt_mono_rel [rotated])
    fix a b
    assume "a \<in> set (sortSlice byPushedAt ?m)" "b \<in> set (sortSlice byPushedAt ?m)"
      and le: "?key b \<le> ?key a"
    then have "ImagePushedAt a \<noteq> None" "ImagePushedAt b \<noteq> None"
      by (simp_all add: set_sortSlice)
    with le show "\<exists>t u. ImagePushedAt a = Some t \<and> ImagePushedAt b = Some u \<and> u \<le> t"
      by auto
  qed
  then show ?thesis by (simp only: rankedMatches_eq)
qed

lemma ranked_ties:
  "filter (\<lambda>i. ImagePushedAt i = Some t) (rankedMatches prefixes images)
   = filter (\<lambda>i. ImagePushedAt i = Some t)
       (filter (\<lambda>i. ImagePushedAt i \<noteq> None \<and> ImageTags i \<noteq> [] \<and> matched prefixes (ImageTags i)) images)"
  unfolding rankedMatches_eq
  by (rule filter_sortSlice) (auto simp: byPushedAt_def After_def)

lemma group_ties:
  "filter (\<lambda>e. pushedTime e = t) (sortSlice byPushedTime g) = filter (\<lambda>e. pushedTime e = t) g"
  by (rule filter_sortSlice) (simp add: byPushedTime_def After_def)

lemma ranked_ties_input:
  "filter (\<lambda>i. ImagePushedAt i = Some t) (rankedMatches prefixes images)
   = filter (\<lambda>i. ImagePushedAt i = Some t \<and> ImageTags i \<noteq> []
                 \<and> matched prefixes (ImageTags i)) images"
proof -
  have "filter (\<lambda>i. ImagePushedAt i = Some t)
        (filter (\<lambda>i. ImagePushedAt i \<noteq> None \<and> ImageTags i \<noteq> [] \<and> matched prefixes (ImageTags i)) images)
      = filter (\<lambda>i. ImagePushedAt i = Some t \<and> ImageTags i \<noteq> []
                 \<and> matched prefixes (ImageTags i)) images"
    unfolding filter_filter by (rule filter_cong) auto
  then show ?thesis by (simp only: ranked_ties)
qed

lemma ranked_prefers_earlier:
  assumes "images = us @ a # vs" "b \<notin> set us"
    "ImagePushedAt a = Some t" "ImagePushedAt b = Some t"
    "ImageTags a \<noteq> []" "matched prefixes (ImageTags a)"
    "b \<in> set (take n (rankedMatches prefixes images))"
  shows "a \<in> set (take n (rankedMatches prefixes images))"
proof -
  let ?M = "\<lambda>i. ImagePushedAt i \<noteq> None \<and> ImageTags i \<noteq> [] \<and> matched prefixes (ImageTags i)"
  let ?P = "\<lambda>i. ImagePushedAt i = Some t"
  let ?r = "rankedMatches prefixes images"
  have Ma: "?M a" using assms(3,5,6) by simp
  have "filter ?M images = filter ?M us @ a # filter ?M vs"
    unfolding assms(1) using Ma by simp
  then have eq: "filter ?P ?r = filter ?P (filter ?M us @ a # filter ?M vs)"
    by (simp only: ranked_ties)
  have nb: "b \<notin> set (filter ?M us)" using assms(2) by simp
  show ?thesis
    using eq assms(3) nb assms(4) assms(7) by (rule stable_prefers_earlier)
qed

lemma group_prefers_earlier:
  assumes "images = us @ a # vs" "b \<notin> set us"
    "ImagePushedAt a = Some t" "ImagePushedAt b = Some t"
    "filedUnder prefixes p (ImageTags a) \<noteq> []"
    "entryOf b t \<in> set (take n (sortSlice byPushedTime (groupOf prefixes images p)))"
  shows "entryOf a t \<in> set (take n (sortSlice byPushedTime (groupOf prefixes images p)))"
proof -
  let ?g = "groupOf prefixes images p"
  let ?s = "sortSlice byPushedTime ?g"
  let ?Q = "\<lambda>e. pushedTime e = t"
  obtain rest where g: "?g = concat (map (entriesOf prefixes p) us) @ entryOf a t # rest"
    unfolding assms(1) using group_split [OF assms(3,5)] by blast
  have "filter ?Q ?s = filter ?Q ?g" by (rule group_ties)
  then have eq: "filter ?Q ?s
      = filter ?Q (concat (map (entriesOf prefixes p) us) @ entryOf a t # rest)"
    by (simp only: g)
  have nb: "entryOf b t \<notin> set (concat (map (entriesOf prefixes p) us))"
    using assms(2,4) by (rule entries_of_earlier)
  have Qa: "?Q (entryOf a t)" and Qb: "?Q (entryOf b t)" by (simp_all add: entryOf_def)
  show ?thesis
    using eq Qa nb Qb assms(6) by (rule stable_prefers_earlier)
qed

section \<open>Properties of the two programs\<close>

text \<open>
  C6. An image without tags that has a push time is marked for deletion as untagged by both
  programs, whatever its age, the prefixes and the retained digests: \<^verbatim>\<open>main.go\<close> logs it
  as an untagged candidate and nothing else, \<^verbatim>\<open>test.go\<close> puts it on the delete list,
  never among the two retained images, and deletes it (or reports it in a dry run).
\<close>

theorem untagged_marked_for_deletion:
  assumes "ImageTags img = []" and "ImagePushedAt img = Some t" and "img \<in> set images"
  shows "processImage svc repoName retention dryRun retained now img t
           = [LogUntaggedCandidate (ImageDigest img)]
       \<and> LogUntaggedCandidate (ImageDigest img)
           \<in> set (cleanupRepository svc clock prefixList retention dryRun repoName images)
       \<and> img \<in> set (toDelete (rankedMatches (Split prefixList) images)
                       (untaggedImages (Split prefixList) images))
       \<and> img \<notin> set (take 2 (rankedMatches (Split prefixList) images))
       \<and> (if dryRun then LogDryRun (ImageDigest img)
           else BatchDeleteImage repoName (ImageDigest img))
           \<in> set (cleanupRepositoryA svc prefixList dryRun repoName images)"
proof -
  let ?ps = "Split prefixList"
  have one: "processImage svc repoName retention dryRun retained now img t
      = [LogUntaggedCandidate (ImageDigest img)]" for retained now
    using assms(1) by (simp add: processImage_def)
  obtain j where "set (processImage svc repoName retention dryRun (retainedDigests ?ps images) (clock j) img t)
      \<subseteq> set (processImages svc repoName retention dryRun (retainedDigests ?ps images) clock 0 images)"
    using processImages_contains [OF assms(3,2)] by blast
  then have run: "LogUntaggedCandidate (ImageDigest img)
      \<in> set (cleanupRepository svc clock prefixList retention dryRun repoName images)"
    using assms(3) by (auto simp: one cleanupRepository_def Let_def)
  have ut: "img \<in> set (untaggedImages ?ps images)"
    using assms by (simp add: untaggedImages_eq)
  then have del: "img \<in> set (toDelete (rankedMatches ?ps images) (untaggedImages ?ps images))"
    by (simp add: toDelete_def)
  have "img \<notin> set (rankedMatches ?ps images)"
    using assms(1) by (simp add: set_rankedMatches)
  then have keep: "img \<notin> set (take 2 (rankedMatches ?ps images))"
    by (meson in_set_takeD)
  have "(if dryRun then LogDryRun (ImageDigest img) else BatchDeleteImage repoName (ImageDigest img))
      \<in> set (deleteAll svc repoName dryRun (toDelete (rankedMatches ?ps images) (untaggedImages ?ps images)))"
    using del by (rule deleteAll_member)
  then have runA: "(if dryRun then LogDryRun (ImageDigest img)
      else BatchDeleteImage repoName (ImageDigest img))
      \<in> set (cleanupRepositoryA svc prefixList dryRun repoName images)"
    using assms(3) by (auto simp: cleanupRepositoryA_def Let_def)
  from one run del keep runA show ?thesis by blast
qed

theorem untagged_marked_for_deletion_witness:
  "cleanupRepository registryUp (steadyClock 0) ''latest'' 10 False ''repo''
     [\<lparr>ImageDigest = ''sha:u'', ImageTags = [], ImagePushedAt = Some 0\<rparr>]
     = [LogUntaggedCandidate ''sha:u'']
   \<and> cleanupRepositoryA registryUp ''latest'' False ''repo''
     [\<lparr>ImageDigest = ''sha:u'', ImageTags = [], ImagePushedAt = Some 0\<rparr>]
     = [BatchDeleteImage ''repo'' ''sha:u'', LogImageDeleted ''sha:u'']"
proof -
  let ?u = "\<lparr>ImageDigest = ''sha:u'', ImageTags = [], ImagePushedAt = Some 0\<rparr>"
  have a: "ImageTags ?u = []" and b: "ImagePushedAt ?u = Some 0" and c: "?u \<in> set [?u]"
    by simp_all
  note inst = untagged_marked_for_deletion [OF a b c, of registryUp "''repo''" 10 False
      "retainedDigests (Split ''latest'') [?u]" 0 "steadyClock 0" "''latest''"]
  have B: "cleanupRepository registryUp (steadyClock 0) ''latest'' 10 False ''repo'' [?u]
      = [LogUntaggedCandidate ''sha:u'']"
    using inst by (simp add: cleanupRepository_def Let_def steadyClock_def)
  have A: "cleanupRepositoryA registryUp ''latest'' False ''repo'' [?u]
      = [BatchDeleteImage ''repo'' ''sha:u'', LogImageDeleted ''sha:u'']"
    by code_simp
  from A B show ?thesis by simp
qed




text \<open>
  C7, as stated: the age is the floor of the elapsed time in days, and the image is deleted
  if and only if that age is greater than the maximum age. The age is computed in
  floating point. One nanosecond before 171 full days the hours are
  \<open>4103 + 3599999999999 / 3600000000000\<close>; the numbers of type \<^verbatim>\<open>float64\<close> just below
  4104 are \<open>2\<^sup>-\<^sup>4\<^sup>0\<close> apart, the sum lies less than half of that below 4104 and is
  rounded to 4104, and \<open>4104 / 24 = 171\<close>. The image is 170 days old, the program computes
  171 and deletes it under a retention period of 170 days.
\<close>

theorem age_boundary_counterexample:
  "(171 * 24 * Hour - 1) div (24 * Hour) = 170
   \<and> cleanupRepository registryUp (steadyClock (171 * 24 * Hour - 1)) ''latest'' 170 False ''repo''
       [\<lparr>ImageDigest = ''sha:x'', ImageTags = [''dev''], ImagePushedAt = Some 0\<rparr>]
     = [LogOldImage ''sha:x'' 171 [''dev''], BatchDeleteImage ''repo'' ''sha:x'',
        LogImageDeleted ''sha:x'']"
  by code_simp

text \<open>
  C7, amended: for a tagged image that is not retained, \<^verbatim>\<open>main.go\<close> logs the image as
  old, and deletes it unless the run is a dry run, if and only if the computed age is
  greater than the retention period; otherwise it logs nothing and leaves the image alone
  (there is no line for an image kept because of its age). The computed age is
  \<^verbatim>\<open>int(Hours() / 24)\<close> in floating point: for an image pushed no later than the clock
  shows it is the floor of the elapsed days or one more, and it is exactly \<open>n\<close> when the
  elapsed time is exactly \<open>n\<close> days, so that an image exactly as old as the retention
  period is left alone.
\<close>

theorem old_image_deleted_iff_age_exceeds:
  assumes "ImageTags img \<noteq> []" and "\<not> retained (ImageDigest img)"
  shows "processImage svc repoName retention dryRun retained now img t
         = (if retention < imageAge now t
            then LogOldImage (ImageDigest img) (imageAge now t) (ImageTags img)
                 # (if dryRun then [] else deleteImage svc repoName (ImageDigest img))
            else [])
       \<and> (t \<le> now \<longrightarrow>
            imageAge now t = Sub now t div (24 * Hour)
            \<or> imageAge now t = Sub now t div (24 * Hour) + 1)
       \<and> (0 \<le> n \<and> n \<le> 106751 \<longrightarrow> imageAge (t + n * (24 * Hour)) t = n)"
proof (intro conjI impI)
  show "processImage svc repoName retention dryRun retained now img t
      = (if retention < imageAge now t
         then LogOldImage (ImageDigest img) (imageAge now t) (ImageTags img)
              # (if dryRun then [] else deleteImage svc repoName (ImageDigest img))
         else [])"
    using assms by (simp add: processImage_def Let_def)
next
  assume "t \<le> now"
  then show "imageAge now t = Sub now t div (24 * Hour)
      \<or> imageAge now t = Sub now t div (24 * Hour) + 1"
    by (rule imageAge_bounds)
next
  assume "0 \<le> n \<and> n \<le> 106751"
  then show "imageAge (t + n * (24 * Hour)) t = n"
    by (simp add: imageAge_whole_days)
qed

theorem old_image_deleted_iff_age_exceeds_witness:
  "processImage registryUp ''repo'' 10 False (retainedDigests [''latest''] [])
     (5 + 10 * (24 * Hour))
     \<lparr>ImageDigest = ''sha:x'', ImageTags = [''dev''], ImagePushedAt = Some 5\<rparr> 5 = []
   \<and> processImage registryUp ''repo'' 10 False (retainedDigests [''latest''] [])
     (5 + 11 * (24 * Hour))
     \<lparr>ImageDigest = ''sha:x'', ImageTags = [''dev''], ImagePushedAt = Some 5\<rparr> 5
     = [LogOldImage ''sha:x'' 11 [''dev''], BatchDeleteImage ''repo'' ''sha:x'',
        LogImageDeleted ''sha:x'']"
proof -
  let ?x = "\<lparr>ImageDigest = ''sha:x'', ImageTags = [''dev''], ImagePushedAt = Some (5::int)\<rparr>"
  let ?rd = "retainedDigests [''latest''] []"
  have a: "ImageTags ?x \<noteq> []" by simp
  have b: "\<not> ?rd (ImageDigest ?x)" by (simp add: retainedDigests_def prefixMatchMap_def)
  note ten = old_image_deleted_iff_age_exceeds
    [of ?x ?rd registryUp "''repo''" 10 False "5 + 10 * (24 * Hour)" 5 10, OF a b]
  note eleven = old_image_deleted_iff_age_exceeds
    [of ?x ?rd registryUp "''repo''" 10 False "5 + 11 * (24 * Hour)" 5 11, OF a b]
  have age10: "imageAge (5 + 10 * (24 * Hour)) 5 = 10" using ten by simp
  have age11: "imageAge (5 + 11 * (24 * Hour)) 5 = 11" using eleven by simp
  have one: "processImage registryUp ''repo'' 10 False ?rd (5 + 10 * (24 * Hour)) ?x 5 = []"
    using ten age10 by simp
  have two: "processImage registryUp ''repo'' 10 False ?rd (5 + 11 * (24 * Hour)) ?x 5
      = [LogOldImage ''sha:x'' 11 [''dev''], BatchDeleteImage ''repo'' ''sha:x'',
         LogImageDeleted ''sha:x'']"
    using eleven age11 by (simp add: deleteImage_def registryUp_def)
  from one two show ?thesis by simp
qed

text \<open>
  C4, as stated: the evaluation never reads an ambient clock, so that two evaluations with
  the same images and configuration give the same decisions. \<^verbatim>\<open>main.go\<close> calls
  \<^verbatim>\<open>time.Since\<close> for every image (line 142): the same image and the same configuration give
  no decision when the clock shows the push time, and a deletion forty days later.
\<close>

theorem ambient_clock_counterexample:
  "cleanupRepository registryUp (steadyClock 0) ''latest'' 10 True ''repo''
     [\<lparr>ImageDigest = ''sha:x'', ImageTags = [''dev''], ImagePushedAt = Some 0\<rparr>] = []
   \<and> cleanupRepository registryUp (steadyClock (40 * 24 * Hour)) ''latest'' 10 True ''repo''
     [\<lparr>ImageDigest = ''sha:x'', ImageTags = [''dev''], ImagePushedAt = Some 0\<rparr>]
     = [LogOldImage ''sha:x'' 40 [''dev'']]"
  by code_simp

text \<open>
  C4, amended: \<^verbatim>\<open>test.go\<close> reads no clock: its output is a function of the images, the
  prefix input, the dry-run flag and the registry's answers (\<open>cleanupRepositoryA\<close> has no
  clock among its arguments). \<^verbatim>\<open>main.go\<close> reads the ambient clock once for every image
  that has a push time, and its output is determined by the images, the configuration, the
  registry's answers and these readings: two runs that agree on them give the same output.
\<close>

theorem output_determined_by_clock_readings:
  assumes "\<forall>k < length (filter (\<lambda>i. ImagePushedAt i \<noteq> None) images). clock k = clock' k"
  shows "cleanupRepository svc clock prefixList retention dryRun repoName images
       = cleanupRepository svc clock' prefixList retention dryRun repoName images"
proof -
  have "\<forall>j < length (filter (\<lambda>i. ImagePushedAt i \<noteq> None) images). clock (0 + j) = clock' (0 + j)"
    using assms by simp
  then have "processImages svc repoName retention dryRun
        (retainedDigests (Split prefixList) images) clock 0 images
      = processImages svc repoName retention dryRun
        (retainedDigests (Split prefixList) images) clock' 0 images"
    by (rule processImages_clock)
  then show ?thesis by (simp add: cleanupRepository_def Let_def)
qed

theorem output_determined_by_clock_readings_witness:
  "listClock [40 * 24 * Hour] 1 \<noteq> steadyClock (40 * 24 * Hour) 1
   \<and> cleanupRepository registryUp (listClock [40 * 24 * Hour]) ''latest'' 10 True ''repo''
       [\<lparr>ImageDigest = ''sha:x'', ImageTags = [''dev''], ImagePushedAt = Some 0\<rparr>,
        \<lparr>ImageDigest = ''sha:y'', ImageTags = [''dev''], ImagePushedAt = None\<rparr>]
     = cleanupRepository registryUp (steadyClock (40 * 24 * Hour)) ''latest'' 10 True ''repo''
       [\<lparr>ImageDigest = ''sha:x'', ImageTags = [''dev''], ImagePushedAt = Some 0\<rparr>,
        \<lparr>ImageDigest = ''sha:y'', ImageTags = [''dev''], ImagePushedAt = None\<rparr>]"
proof -
  let ?imgs = "[\<lparr>ImageDigest = ''sha:x'', ImageTags = [''dev''], ImagePushedAt = Some (0::int)\<rparr>,
        \<lparr>ImageDigest = ''sha:y'', ImageTags = [''dev''], ImagePushedAt = None\<rparr>]"
  have h: "\<forall>k < length (filter (\<lambda>i. ImagePushedAt i \<noteq> None) ?imgs).
      listClock [40 * 24 * Hour] k = steadyClock (40 * 24 * Hour) k"
    by (simp add: listClock_def steadyClock_def)
  have d: "listClock [40 * 24 * Hour] 1 \<noteq> steadyClock (40 * 24 * Hour) 1"
    by (simp add: listClock_def steadyClock_def Hour_def)
  from output_determined_by_clock_readings [OF h] d show ?thesis by blast
qed

text \<open>
  C10. When the prefix list contains the empty string, as it does when an empty prefix
  input is split on commas, every tag starts with one of the prefixes. Every tagged image
  with a push time is then in the ranking of \<^verbatim>\<open>test.go\<close> and in one of the groups of
  \<^verbatim>\<open>main.go\<close>, where it competes for the places that are kept.
\<close>

theorem empty_prefix_matches_every_tag:
  assumes "[] \<in> set prefixes" and "img \<in> set images"
    and "ImagePushedAt img = Some t" and "ImageTags img \<noteq> []"
  shows "Split [] = [[]]
       \<and> matched prefixes (ImageTags img)
       \<and> img \<in> set (rankedMatches prefixes images)
       \<and> (\<exists>p\<in>set prefixes. entryOf img t \<in> set (groupOf prefixes images p))"
proof -
  obtain tag where tag: "tag \<in> set (ImageTags img)"
    using assms(4) by (cases "ImageTags img") auto
  have m: "matched prefixes (ImageTags img)"
    using tag assms(1) HasPrefix_empty by (auto simp: matched_iff)
  have r: "img \<in> set (rankedMatches prefixes images)"
    using assms m by (simp add: set_rankedMatches)
  have "firstMatch prefixes tag \<noteq> None"
    using assms(1) HasPrefix_empty by (auto simp: firstMatch_None)
  then obtain p where p: "firstMatch prefixes tag = Some p" by auto
  then have "p \<in> set prefixes" by (simp add: firstMatch_Some)
  moreover have "entryOf img t \<in> set (groupOf prefixes images p)"
    using assms(2,3) tag p by (auto simp: group_member_iff)
  ultimately have g: "\<exists>p\<in>set prefixes. entryOf img t \<in> set (groupOf prefixes images p)" by blast
  from m r g show ?thesis by simp
qed

theorem empty_prefix_matches_every_tag_witness:
  "\<lparr>ImageDigest = ''sha:x'', ImageTags = [''dev''], ImagePushedAt = Some 7\<rparr>
     \<in> set (rankedMatches (Split [])
          [\<lparr>ImageDigest = ''sha:x'', ImageTags = [''dev''], ImagePushedAt = Some 7\<rparr>])
   \<and> entryOf \<lparr>ImageDigest = ''sha:x'', ImageTags = [''dev''], ImagePushedAt = Some 7\<rparr> 7
     \<in> set (groupOf (Split [])
          [\<lparr>ImageDigest = ''sha:x'', ImageTags = [''dev''], ImagePushedAt = Some 7\<rparr>] [])"
proof -
  let ?x = "\<lparr>ImageDigest = ''sha:x'', ImageTags = [''dev''], ImagePushedAt = Some (7::int)\<rparr>"
  have a: "[] \<in> set (Split [])" and b: "?x \<in> set [?x]"
    and c: "ImagePushedAt ?x = Some 7" and d: "ImageTags ?x \<noteq> []"
    by simp_all
  from empty_prefix_matches_every_tag [OF a b c d] show ?thesis by simp
qed

text \<open>
  C1, as stated: an image whose tags match more than one retained prefix belongs to every
  matching prefix group and is retained if any of those groups ranks it among its first
  places. In \<^verbatim>\<open>main.go\<close> the search for a prefix stops at the first one a tag starts with
  (the \<^verbatim>\<open>break\<close> of line 119). The tag \<^verbatim>\<open>dev-3\<close> starts with both \<^verbatim>\<open>d\<close> and \<^verbatim>\<open>dev\<close>; its
  image is filed under \<^verbatim>\<open>d\<close> only, where it comes third, and is not retained, although a
  group of \<^verbatim>\<open>dev\<close> would hold it alone.
\<close>

theorem first_prefix_only_counterexample:
  "HasPrefix ''dev-3'' ''d'' \<and> HasPrefix ''dev-3'' ''dev''
   \<and> groupOf (Split ''d,dev'')
       [\<lparr>ImageDigest = ''sha:1'', ImageTags = [''d-1''], ImagePushedAt = Some 2\<rparr>,
        \<lparr>ImageDigest = ''sha:2'', ImageTags = [''d-2''], ImagePushedAt = Some 1\<rparr>,
        \<lparr>ImageDigest = ''sha:3'', ImageTags = [''dev-3''], ImagePushedAt = Some 0\<rparr>] ''dev'' = []
   \<and> cleanupRepository registryUp (steadyClock (5 * 24 * Hour)) ''d,dev'' 1 True ''repo''
       [\<lparr>ImageDigest = ''sha:1'', ImageTags = [''d-1''], ImagePushedAt = Some 2\<rparr>,
        \<lparr>ImageDigest = ''sha:2'', ImageTags = [''d-2''], ImagePushedAt = Some 1\<rparr>,
        \<lparr>ImageDigest = ''sha:3'', ImageTags = [''dev-3''], ImagePushedAt = Some 0\<rparr>]
     = [LogKeepRetained ''sha:1'' [''d-1''], LogKeepRetained ''sha:2'' [''d-2''],
        LogOldImage ''sha:3'' 5 [''dev-3'']]"
  by code_simp

text \<open>
  C1, amended: in \<^verbatim>\<open>main.go\<close> every tag of an image is filed under one prefix, the first
  prefix of the list that the tag starts with. An image with a push time has an entry in
  the group of a prefix exactly when one of its tags is filed under that prefix, so an
  image belongs to the groups of the first matches of its tags and not to every group whose
  prefix one of its tags starts with. A digest is retained exactly when it is among the
  first two entries of the ranking of some group (the union over the groups; the number
  kept is the constant 2), and a tagged image with a retained digest is logged as kept.
\<close>

theorem grouped_under_first_matching_prefix:
  "(e \<in> set (groupOf prefixes images p) \<longleftrightarrow>
      (\<exists>img\<in>set images. \<exists>t. ImagePushedAt img = Some t \<and> e = entryOf img t
         \<and> (\<exists>tag\<in>set (ImageTags img). firstMatch prefixes tag = Some p)))
   \<and> (retainedDigests prefixes images d \<longleftrightarrow>
      (\<exists>p. d \<in> digest ` set (take 2 (sortSlice byPushedTime (groupOf prefixes images p)))))
   \<and> (ImageTags img \<noteq> [] \<and> retainedDigests prefixes images (ImageDigest img) \<longrightarrow>
      processImage svc repoName retention dryRun (retainedDigests prefixes images) now img t
      = [LogKeepRetained (ImageDigest img) (ImageTags img)])"
proof (intro conjI impI)
  show "e \<in> set (groupOf prefixes images p) \<longleftrightarrow>
      (\<exists>img\<in>set images. \<exists>t. ImagePushedAt img = Some t \<and> e = entryOf img t
         \<and> (\<exists>tag\<in>set (ImageTags img). firstMatch prefixes tag = Some p))"
    by (rule group_member_iff)
next
  show "retainedDigests prefixes images d \<longleftrightarrow>
      (\<exists>p. d \<in> digest ` set (take 2 (sortSlice byPushedTime (groupOf prefixes images p))))"
    by (rule retainedDigests_iff)
next
  assume "ImageTags img \<noteq> [] \<and> retainedDigests prefixes images (ImageDigest img)"
  then show "processImage svc repoName retention dryRun (retainedDigests prefixes images) now img t
      = [LogKeepRetained (ImageDigest img) (ImageTags img)]"
    by (simp add: processImage_def)
qed

theorem grouped_under_first_matching_prefix_witness:
  "entryOf \<lparr>ImageDigest = ''sha:m'', ImageTags = [''latest-0'', ''dev-0''], ImagePushedAt = Some 10\<rparr> 10
     \<in> set (groupOf [''latest'', ''dev'']
          [\<lparr>ImageDigest = ''sha:1'', ImageTags = [''latest-1''], ImagePushedAt = Some 30\<rparr>,
           \<lparr>ImageDigest = ''sha:2'', ImageTags = [''latest-2''], ImagePushedAt = Some 20\<rparr>,
           \<lparr>ImageDigest = ''sha:m'', ImageTags = [''latest-0'', ''dev-0''], ImagePushedAt = Some 10\<rparr>]
          ''dev'')
   \<and> processImage registryUp ''repo'' 0 False
       (retainedDigests [''latest'', ''dev'']
          [\<lparr>ImageDigest = ''sha:1'', ImageTags = [''latest-1''], ImagePushedAt = Some 30\<rparr>,
           \<lparr>ImageDigest = ''sha:2'', ImageTags = [''latest-2''], ImagePushedAt = Some 20\<rparr>,
           \<lparr>ImageDigest = ''sha:m'', ImageTags = [''latest-0'', ''dev-0''], ImagePushedAt = Some 10\<rparr>])
       (100 * 24 * Hour)
       \<lparr>ImageDigest = ''sha:m'', ImageTags = [''latest-0'', ''dev-0''], ImagePushedAt = Some 10\<rparr> 10
     = [LogKeepRetained ''sha:m'' [''latest-0'', ''dev-0'']]"
proof -
  let ?m = "\<lparr>ImageDigest = ''sha:m'', ImageTags = [''latest-0'', ''dev-0''], ImagePushedAt = Some (10::int)\<rparr>"
  let ?imgs = "[\<lparr>ImageDigest = ''sha:1'', ImageTags = [''latest-1''], ImagePushedAt = Some (30::int)\<rparr>,
           \<lparr>ImageDigest = ''sha:2'', ImageTags = [''latest-2''], ImagePushedAt = Some 20\<rparr>, ?m]"
  let ?ps = "[''latest'', ''dev'']"
  note inst = grouped_under_first_matching_prefix
    [of "entryOf ?m 10" ?ps ?imgs "''dev''" "''sha:m''" ?m registryUp "''repo''" 0 False
        "100 * 24 * Hour" 10]
  have fm: "firstMatch ?ps ''dev-0'' = Some ''dev''"
    by (simp add: HasPrefix_def)
  have "\<exists>img\<in>set ?imgs. \<exists>t. ImagePushedAt img = Some t \<and> entryOf ?m 10 = entryOf img t
      \<and> (\<exists>tag\<in>set (ImageTags img). firstMatch ?ps tag = Some ''dev'')"
    using fm by simp
  with inst have mem: "entryOf ?m 10 \<in> set (groupOf ?ps ?imgs ''dev'')" by blast
  have rd: "retainedDigests ?ps ?imgs ''sha:m''" by code_simp
  with inst have keep: "processImage registryUp ''repo'' 0 False (retainedDigests ?ps ?imgs)
      (100 * 24 * Hour) ?m 10 = [LogKeepRetained ''sha:m'' [''latest-0'', ''dev-0'']]"
    by simp
  from mem keep show ?thesis by blast
qed

text \<open>
  C9, as stated: an image with two or more tags that match the same retained prefix is
  appended to that prefix's group once for every matching tag. An entry goes to the group
  of the first prefix a tag starts with: with the prefixes \<^verbatim>\<open>d\<close> and \<^verbatim>\<open>dev\<close>, both tags
  \<^verbatim>\<open>dev1\<close> and \<^verbatim>\<open>dev2\<close> match \<^verbatim>\<open>dev\<close>, and the image is appended twice to the group of
  \<^verbatim>\<open>d\<close> and never to the group of \<^verbatim>\<open>dev\<close>.
\<close>

theorem later_prefix_group_counterexample:
  "HasPrefix ''dev1'' ''dev'' \<and> HasPrefix ''dev2'' ''dev''
   \<and> groupOf (Split ''d,dev'')
       [\<lparr>ImageDigest = ''sha:x'', ImageTags = [''dev1'', ''dev2''], ImagePushedAt = Some 0\<rparr>]
       ''dev'' = []
   \<and> length (groupOf (Split ''d,dev'')
       [\<lparr>ImageDigest = ''sha:x'', ImageTags = [''dev1'', ''dev2''], ImagePushedAt = Some 0\<rparr>]
       ''d'') = 2"
  by code_simp

text \<open>
  C9, amended: in \<^verbatim>\<open>main.go\<close> an image with a push time is appended to the group of a
  prefix once for every tag filed under that prefix, that is, for every tag whose first
  matching prefix in the list it is. An image with two or more such tags has as many equal
  entries in the group; when it is also more recent than every other image of the group,
  its entries take both places that are kept and its digest is the only one retained from
  that group.
\<close>

theorem one_entry_per_filed_tag:
  assumes "distinct (map ImageDigest images)" and "img \<in> set images"
    and "ImagePushedAt img = Some t"
  shows "filter (\<lambda>e. digest e = ImageDigest img) (groupOf prefixes images p)
         = replicate (length (filedUnder prefixes p (ImageTags img))) (entryOf img t)
       \<and> (2 \<le> length (filedUnder prefixes p (ImageTags img))
          \<and> (\<forall>e\<in>set (groupOf prefixes images p).
                digest e \<noteq> ImageDigest img \<longrightarrow> pushedTime e < t) \<longrightarrow>
          digest ` set (take 2 (sortSlice byPushedTime (groupOf prefixes images p)))
          = {ImageDigest img})"
proof (intro conjI impI)
  let ?g = "groupOf prefixes images p"
  let ?E = "entryOf img t"
  let ?n = "length (filedUnder prefixes p (ImageTags img))"
  show own: "filter (\<lambda>e. digest e = ImageDigest img) ?g = replicate ?n ?E"
    using filter_group_by_digest [OF assms(1,2)] assms(3) by (simp add: entriesOf_def)
  assume a: "2 \<le> ?n \<and> (\<forall>e\<in>set ?g. digest e \<noteq> ImageDigest img \<longrightarrow> pushedTime e < t)"
  have E: "digest ?E = ImageDigest img" "pushedTime ?E = t"
    by (simp_all add: entryOf_def)
  have same: "e = ?E" if "e \<in> set ?g" "digest e = ImageDigest img" for e
  proof -
    from that have "e \<in> set (filter (\<lambda>e. digest e = ImageDigest img) ?g)" by simp
    then show ?thesis unfolding own by simp
  qed
  have "filter (\<lambda>e. e = ?E) ?g = filter (\<lambda>e. digest e = ImageDigest img) ?g"
    by (rule filter_cong) (auto simp: E same)
  then have two: "2 \<le> length (filter (\<lambda>e. e = ?E) ?g)"
    using a by (simp add: own)
  have others: "\<forall>e\<in>set ?g. e \<noteq> ?E \<longrightarrow> pushedTime e < pushedTime ?E"
    using a same by (auto simp: E)
  have "take 2 (sortSlice byPushedTime ?g) = [?E, ?E]"
    using two others by (rule top_two_duplicates)
  then show "digest ` set (take 2 (sortSlice byPushedTime ?g)) = {ImageDigest img}"
    by (simp add: E)
qed

theorem one_entry_per_filed_tag_witness:
  "groupOf [''latest'']
     [\<lparr>ImageDigest = ''sha:x'', ImageTags = [''latest'', ''latest-1''], ImagePushedAt = Some 30\<rparr>,
      \<lparr>ImageDigest = ''sha:y'', ImageTags = [''latest-2''], ImagePushedAt = Some 20\<rparr>] ''latest''
   = [entryOf \<lparr>ImageDigest = ''sha:x'', ImageTags = [''latest'', ''latest-1''], ImagePushedAt = Some 30\<rparr> 30,
      entryOf \<lparr>ImageDigest = ''sha:x'', ImageTags = [''latest'', ''latest-1''], ImagePushedAt = Some 30\<rparr> 30,
      entryOf \<lparr>ImageDigest = ''sha:y'', ImageTags = [''latest-2''], ImagePushedAt = Some 20\<rparr> 20]
   \<and> digest ` set (take 2 (sortSlice byPushedTime (groupOf [''latest'']
     [\<lparr>ImageDigest = ''sha:x'', ImageTags = [''latest'', ''latest-1''], ImagePushedAt = Some 30\<rparr>,
      \<lparr>ImageDigest = ''sha:y'', ImageTags = [''latest-2''], ImagePushedAt = Some 20\<rparr>] ''latest'')))
     = {''sha:x''}
   \<and> \<not> retainedDigests [''latest'']
     [\<lparr>ImageDigest = ''sha:x'', ImageTags = [''latest'', ''latest-1''], ImagePushedAt = Some 30\<rparr>,
      \<lparr>ImageDigest = ''sha:y'', ImageTags = [''latest-2''], ImagePushedAt = Some 20\<rparr>] ''sha:y''"
proof -
  let ?x = "\<lparr>ImageDigest = ''sha:x'', ImageTags = [''latest'', ''latest-1''], ImagePushedAt = Some (30::int)\<rparr>"
  let ?y = "\<lparr>ImageDigest = ''sha:y'', ImageTags = [''latest-2''], ImagePushedAt = Some (20::int)\<rparr>"
  let ?ps = "[''latest'']"
  have g: "groupOf ?ps [?x, ?y] ''latest'' = [entryOf ?x 30, entryOf ?x 30, entryOf ?y 20]"
    by code_simp
  have d: "distinct (map ImageDigest [?x, ?y])" and m: "?x \<in> set [?x, ?y]"
    and t: "ImagePushedAt ?x = Some 30"
    by simp_all
  have two: "2 \<le> length (filedUnder ?ps ''latest'' (ImageTags ?x))"
    by (simp add: filedUnder_def HasPrefix_def)
  have others: "\<forall>e\<in>set (groupOf ?ps [?x, ?y] ''latest''). digest e \<noteq> ImageDigest ?x \<longrightarrow> pushedTime e < 30"
    unfolding g by (simp add: entryOf_def)
  from one_entry_per_filed_tag [OF d m t, of ?ps "''latest''"] two others
  have top: "digest ` set (take 2 (sortSlice byPushedTime (groupOf ?ps [?x, ?y] ''latest''))) = {''sha:x''}"
    by simp
  have n: "\<not> retainedDigests ?ps [?x, ?y] ''sha:y''" by code_simp
  from g top n show ?thesis by blast
qed

text \<open>
  C2, as stated: for a non-empty image list every digest whose record has a push time
  appears exactly once among the decisions of the output; in particular \<^verbatim>\<open>test.go\<close>
  decides about a tagged image whose tags match no retained prefix. Such an image is put
  neither among the matched images nor among the untagged ones (lines 115-117): the run
  says nothing about it. \<^verbatim>\<open>main.go\<close> says nothing about a tagged image that is not retained
  and not older than the retention period.
\<close>

theorem unmatched_image_undecided_counterexample:
  "cleanupRepositoryA registryUp ''latest'' False ''repo''
     [\<lparr>ImageDigest = ''sha:x'', ImageTags = [''dev''], ImagePushedAt = Some 5\<rparr>] = []
   \<and> cleanupRepository registryUp (steadyClock 5) ''latest'' 10 False ''repo''
     [\<lparr>ImageDigest = ''sha:x'', ImageTags = [''dev''], ImagePushedAt = Some 5\<rparr>] = []"
  by code_simp

text \<open>
  C2, amended: for an image list with pairwise distinct digests, the digest of an image with
  a push time appears at most once among the decisions of the output. In \<^verbatim>\<open>test.go\<close> it
  appears exactly once when the image is untagged or has a tag that starts with a retained
  prefix, and not at all when the image is tagged and no tag matches. In \<^verbatim>\<open>main.go\<close> it
  appears exactly once when the image is untagged, retained, or older than the retention
  period at its reading of the clock, and not at all otherwise.
\<close>

theorem decided_at_most_once:
  assumes "distinct (map ImageDigest images)" and "img \<in> set images"
    and "ImagePushedAt img = Some t"
  shows "count_list
           (concat (map decisionA (cleanupRepositoryA svc prefixList dryRun repoName images)))
           (ImageDigest img)
         = (if ImageTags img = [] \<or> matched (Split prefixList) (ImageTags img) then 1 else 0)
       \<and> count_list
           (concat (map decisionB
              (cleanupRepository svc clock prefixList retention dryRun repoName images)))
           (ImageDigest img)
         = (if ImageTags img = [] \<or> retainedDigests (Split prefixList) images (ImageDigest img)
               \<or> retention < imageAge (clock (clockIndex images img)) t
            then 1 else 0)"
proof
  let ?ps = "Split prefixList"
  let ?M = "\<lambda>i. ImagePushedAt i \<noteq> None \<and> ImageTags i \<noteq> [] \<and> matched ?ps (ImageTags i)"
  let ?U = "\<lambda>i. ImagePushedAt i \<noteq> None \<and> ImageTags i = []"
  let ?out = "concat (map decisionA (cleanupRepositoryA svc prefixList dryRun repoName images))"
  have "count_list ?out (ImageDigest img) = count (mset ?out) (ImageDigest img)"
    by (simp only: count_mset)
  also have "\<dots> = count_list (map ImageDigest (filter ?M images)) (ImageDigest img)
      + count_list (map ImageDigest (filter ?U images)) (ImageDigest img)"
    by (simp only: decisionsA_digests [OF assms(1)] count_union count_mset)
  also have "\<dots> = (if ?M img then 1 else 0) + (if ?U img then 1 else 0)"
    by (simp only: count_filtered [OF assms(1,2)])
  also have "\<dots> = (if ImageTags img = [] \<or> matched ?ps (ImageTags img) then 1 else 0)"
    using assms(3) by auto
  finally show "count_list ?out (ImageDigest img)
      = (if ImageTags img = [] \<or> matched ?ps (ImageTags img) then 1 else 0)" .
next
  have ne: "images \<noteq> []" using assms(2) by auto
  show "count_list
      (concat (map decisionB
         (cleanupRepository svc clock prefixList retention dryRun repoName images)))
      (ImageDigest img)
    = (if ImageTags img = [] \<or> retainedDigests (Split prefixList) images (ImageDigest img)
          \<or> retention < imageAge (clock (clockIndex images img)) t
       then 1 else 0)"
    using decisionB_count [OF assms, of svc repoName retention dryRun
        "retainedDigests (Split prefixList) images" clock 0] ne
    by (simp add: cleanupRepository_def Let_def)
qed

theorem decided_at_most_once_witness:
  "count_list (concat (map decisionA (cleanupRepositoryA registryUp ''latest'' True ''repo''
       [\<lparr>ImageDigest = ''sha:u'', ImageTags = [], ImagePushedAt = Some 1\<rparr>,
        \<lparr>ImageDigest = ''sha:x'', ImageTags = [''dev''], ImagePushedAt = Some 5\<rparr>])))
     ''sha:x'' = 0
   \<and> count_list (concat (map decisionA (cleanupRepositoryA registryUp ''latest'' True ''repo''
       [\<lparr>ImageDigest = ''sha:u'', ImageTags = [], ImagePushedAt = Some 1\<rparr>,
        \<lparr>ImageDigest = ''sha:x'', ImageTags = [''dev''], ImagePushedAt = Some 5\<rparr>])))
     ''sha:u'' = 1
   \<and> count_list (concat (map decisionB
       (cleanupRepository registryUp (steadyClock 5) ''latest'' 10 True ''repo''
       [\<lparr>ImageDigest = ''sha:u'', ImageTags = [], ImagePushedAt = Some 1\<rparr>,
        \<lparr>ImageDigest = ''sha:x'', ImageTags = [''dev''], ImagePushedAt = Some 5\<rparr>])))
     ''sha:u'' = 1"
proof -
  let ?u = "\<lparr>ImageDigest = ''sha:u'', ImageTags = [], ImagePushedAt = Some (1::int)\<rparr>"
  let ?x = "\<lparr>ImageDigest = ''sha:x'', ImageTags = [''dev''], ImagePushedAt = Some (5::int)\<rparr>"
  have d: "distinct (map ImageDigest [?u, ?x])" by simp
  have mu: "?u \<in> set [?u, ?x]" and mx: "?x \<in> set [?u, ?x]" by simp_all
  have tu: "ImagePushedAt ?u = Some 1" and tx: "ImagePushedAt ?x = Some 5" by simp_all
  have nm: "\<not> matched (Split ''latest'') (ImageTags ?x)"
    by (simp add: HasPrefix_def)
  note forx = decided_at_most_once [OF d mx tx, of registryUp "''latest''" True "''repo''"
      "steadyClock 5" 10]
  note foru = decided_at_most_once [OF d mu tu, of registryUp "''latest''" True "''repo''"
      "steadyClock 5" 10]
  from forx nm have one: "count_list (concat (map decisionA
      (cleanupRepositoryA registryUp ''latest'' True ''repo'' [?u, ?x]))) ''sha:x'' = 0"
    by simp
  from foru have two: "count_list (concat (map decisionA
      (cleanupRepositoryA registryUp ''latest'' True ''repo'' [?u, ?x]))) ''sha:u'' = 1"
    by simp
  from foru have three: "count_list (concat (map decisionB
      (cleanupRepository registryUp (steadyClock 5) ''latest'' 10 True ''repo'' [?u, ?x]))) ''sha:u'' = 1"
    by simp
  from one two three show ?thesis by blast
qed

text \<open>
  C3, as stated: two images with the same push time are ordered by digest ascending, so
  that the image with the smaller digest takes the last place that is kept. The comparison
  of the sort looks at the push time only (line 122 of \<^verbatim>\<open>test.go\<close>, line 129 of
  \<^verbatim>\<open>main.go\<close>). With one place left after the most recent image, \<^verbatim>\<open>sha:b\<close>, listed first,
  is kept and \<^verbatim>\<open>sha:a\<close> is not, in both programs.
\<close>

theorem no_digest_tie_break_counterexample:
  "cleanupRepositoryA registryUp ''latest'' True ''repo''
     [\<lparr>ImageDigest = ''sha:n'', ImageTags = [''latest''], ImagePushedAt = Some 20\<rparr>,
      \<lparr>ImageDigest = ''sha:b'', ImageTags = [''latest-1''], ImagePushedAt = Some 10\<rparr>,
      \<lparr>ImageDigest = ''sha:a'', ImageTags = [''latest-2''], ImagePushedAt = Some 10\<rparr>]
   = [LogRetaining ''sha:n'', LogRetaining ''sha:b'', LogDryRun ''sha:a'']
   \<and> cleanupRepository registryUp (steadyClock (30 * 24 * Hour)) ''latest'' 10 True ''repo''
     [\<lparr>ImageDigest = ''sha:n'', ImageTags = [''latest''], ImagePushedAt = Some 20\<rparr>,
      \<lparr>ImageDigest = ''sha:b'', ImageTags = [''latest-1''], ImagePushedAt = Some 10\<rparr>,
      \<lparr>ImageDigest = ''sha:a'', ImageTags = [''latest-2''], ImagePushedAt = Some 10\<rparr>]
   = [LogKeepRetained ''sha:n'' [''latest''], LogKeepRetained ''sha:b'' [''latest-1''],
      LogOldImage ''sha:a'' 29 [''latest-2'']]"
  by code_simp

text \<open>
  C8. In \<^verbatim>\<open>main.go\<close> no delete call is issued for an untagged image: its turn of the loop
  produces the candidate log line and nothing else. A delete call for a digest appears in
  the output of a repository's run exactly when the run is not a dry run and the list has,
  at some place, an image with that digest that has tags and a push time, whose digest is
  not retained, and whose age exceeds the retention period at the reading of the clock
  taken in that image's own turn of the loop (one reading for every earlier image with a
  push time comes before it).
\<close>

theorem delete_call_only_for_old_tagged:
  "(ImageTags img = [] \<longrightarrow>
      BatchDeleteImage r d \<notin> set (processImage svc repoName retention dryRun retained now img t)
      \<and> processImage svc repoName retention dryRun retained now img t
          = [LogUntaggedCandidate (ImageDigest img)])
   \<and> (BatchDeleteImage r d
        \<in> set (cleanupRepository svc clock prefixList retention dryRun repoName images) \<longleftrightarrow>
      \<not> dryRun \<and> r = repoName
      \<and> (\<exists>us x vs u. images = us @ x # vs \<and> ImageDigest x = d \<and> ImagePushedAt x = Some u
            \<and> ImageTags x \<noteq> []
            \<and> \<not> retainedDigests (Split prefixList) images d
            \<and> retention
                < imageAge (clock (length (filter (\<lambda>i. ImagePushedAt i \<noteq> None) us))) u))"
proof (intro conjI impI)
  assume "ImageTags img = []"
  then show one: "processImage svc repoName retention dryRun retained now img t
      = [LogUntaggedCandidate (ImageDigest img)]"
    by (simp add: processImage_def)
  then show "BatchDeleteImage r d \<notin> set (processImage svc repoName retention dryRun retained now img t)"
    by simp
next
  let ?rd = "retainedDigests (Split prefixList) images"
  let ?n = "\<lambda>us. length (filter (\<lambda>i. ImagePushedAt i \<noteq> None) us)"
  let ?run = "cleanupRepository svc clock prefixList retention dryRun repoName images"
  let ?loop = "processImages svc repoName retention dryRun ?rd clock 0 images"
  let ?R = "\<not> dryRun \<and> r = repoName
      \<and> (\<exists>us x vs u. images = us @ x # vs \<and> ImageDigest x = d \<and> ImagePushedAt x = Some u
            \<and> ImageTags x \<noteq> [] \<and> \<not> ?rd d \<and> retention < imageAge (clock (?n us)) u)"
  have run: "set ?run = set ?loop"
    by (simp add: cleanupRepository_def Let_def)
  show "BatchDeleteImage r d \<in> set ?run \<longleftrightarrow> ?R"
  proof
    assume "BatchDeleteImage r d \<in> set ?run"
    then have "BatchDeleteImage r d \<in> set ?loop" by (simp only: run)
    then obtain us x vs u where x: "images = us @ x # vs" "ImagePushedAt x = Some u"
      and e: "BatchDeleteImage r d
          \<in> set (processImage svc repoName retention dryRun ?rd (clock (0 + ?n us)) x u)"
      using processImages_member_at by blast
    from e have "\<not> dryRun \<and> r = repoName \<and> d = ImageDigest x \<and> ImageTags x \<noteq> []
        \<and> \<not> ?rd (ImageDigest x) \<and> retention < imageAge (clock (?n us)) u"
      by (simp add: processImage_delete_iff)
    with x show ?R by blast
  next
    assume R: ?R
    then obtain us x vs u where x: "images = us @ x # vs" "ImageDigest x = d"
      "ImagePushedAt x = Some u" "ImageTags x \<noteq> []" "\<not> ?rd d"
      "retention < imageAge (clock (?n us)) u"
      by blast
    from R x have "BatchDeleteImage r d
        \<in> set (processImage svc repoName retention dryRun ?rd (clock (0 + ?n us)) x u)"
      by (simp add: processImage_delete_iff)
    moreover have "?loop = processImages svc repoName retention dryRun ?rd clock 0 us
        @ processImage svc repoName retention dryRun ?rd (clock (0 + ?n us)) x u
        @ processImages svc repoName retention dryRun ?rd clock (Suc (0 + ?n us)) vs"
      unfolding x(1) using x(3) by (rule processImages_at)
    ultimately have "BatchDeleteImage r d \<in> set ?loop" by simp
    then show "BatchDeleteImage r d \<in> set ?run" by (simp only: run)
  qed
qed

theorem delete_call_only_for_old_tagged_witness:
  "BatchDeleteImage ''repo'' ''sha:x''
     \<in> set (cleanupRepository registryUp (listClock [0, 40 * 24 * Hour, 40 * 24 * Hour])
         ''latest'' 10 False ''repo''
         [\<lparr>ImageDigest = ''sha:y'', ImageTags = [''dev''], ImagePushedAt = Some 0\<rparr>,
          \<lparr>ImageDigest = ''sha:x'', ImageTags = [''dev''], ImagePushedAt = Some 0\<rparr>,
          \<lparr>ImageDigest = ''sha:u'', ImageTags = [], ImagePushedAt = Some 0\<rparr>])
   \<and> cleanupRepository registryUp (listClock [0, 40 * 24 * Hour, 40 * 24 * Hour])
         ''latest'' 10 False ''repo''
         [\<lparr>ImageDigest = ''sha:y'', ImageTags = [''dev''], ImagePushedAt = Some 0\<rparr>,
          \<lparr>ImageDigest = ''sha:x'', ImageTags = [''dev''], ImagePushedAt = Some 0\<rparr>,
          \<lparr>ImageDigest = ''sha:u'', ImageTags = [], ImagePushedAt = Some 0\<rparr>]
     = [LogOldImage ''sha:x'' 40 [''dev''], BatchDeleteImage ''repo'' ''sha:x'',
        LogImageDeleted ''sha:x'', LogUntaggedCandidate ''sha:u'']"
proof -
  let ?y = "\<lparr>ImageDigest = ''sha:y'', ImageTags = [''dev''], ImagePushedAt = Some (0::int)\<rparr>"
  let ?x = "\<lparr>ImageDigest = ''sha:x'', ImageTags = [''dev''], ImagePushedAt = Some (0::int)\<rparr>"
  let ?u = "\<lparr>ImageDigest = ''sha:u'', ImageTags = [], ImagePushedAt = Some (0::int)\<rparr>"
  let ?clock = "listClock [0, 40 * 24 * Hour, 40 * 24 * Hour]"
  let ?run = "cleanupRepository registryUp ?clock ''latest'' 10 False ''repo'' [?y, ?x, ?u]"
  have nr: "\<not> retainedDigests (Split ''latest'') [?y, ?x, ?u] ''sha:x''"
    by code_simp
  have age: "10 < imageAge (?clock (length (filter (\<lambda>i. ImagePushedAt i \<noteq> None) [?y]))) 0"
    by code_simp
  have "[?y, ?x, ?u] = [?y] @ ?x # [?u] \<and> ImageDigest ?x = ''sha:x'' \<and> ImagePushedAt ?x = Some 0
      \<and> ImageTags ?x \<noteq> [] \<and> \<not> retainedDigests (Split ''latest'') [?y, ?x, ?u] ''sha:x''
      \<and> 10 < imageAge (?clock (length (filter (\<lambda>i. ImagePushedAt i \<noteq> None) [?y]))) 0"
    using nr age by simp
  then have ex: "\<exists>us x vs u. [?y, ?x, ?u] = us @ x # vs \<and> ImageDigest x = ''sha:x''
      \<and> ImagePushedAt x = Some u \<and> ImageTags x \<noteq> []
      \<and> \<not> retainedDigests (Split ''latest'') [?y, ?x, ?u] ''sha:x''
      \<and> 10 < imageAge (?clock (length (filter (\<lambda>i. ImagePushedAt i \<noteq> None) us))) u"
    by blast
  from delete_call_only_for_old_tagged
    [of ?u "''repo''" "''sha:x''" registryUp "''repo''" 10 False "\<lambda>d. False" 0 0
        ?clock "''latest''" "[?y, ?x, ?u]"] ex
  have x: "BatchDeleteImage ''repo'' ''sha:x'' \<in> set ?run" by blast
  have run: "?run = [LogOldImage ''sha:x'' 40 [''dev''], BatchDeleteImage ''repo'' ''sha:x'',
      LogImageDeleted ''sha:x'', LogUntaggedCandidate ''sha:u'']"
    by code_simp
  from x run show ?thesis by (rule conjI)
qed

text \<open>
  C3, amended: in both programs the matched images are ranked by push time, most recent
  first, and the digest plays no part in the ranking. Where at most 12 images are ranked
  together (all the matched images in \<^verbatim>\<open>test.go\<close>, the entries of one prefix group in
  \<^verbatim>\<open>main.go\<close>; \<^verbatim>\<open>sort.Slice\<close> sorts such a slice by insertion), images with the same push
  time stay in the order of the input: of two such images, the one listed first in the
  input is among the first \<open>n\<close> of the ranking whenever the other is, for every \<open>n\<close>, so
  that with one place left the image listed first is the one kept, whatever the digests.
\<close>

theorem ties_keep_input_order:
  "sorted_wrt (\<lambda>x y. \<exists>v w. ImagePushedAt x = Some v \<and> ImagePushedAt y = Some w \<and> w \<le> v)
     (rankedMatches prefixes images)
   \<and> sorted_wrt (\<lambda>x y. pushedTime y \<le> pushedTime x)
       (sortSlice byPushedTime (groupOf prefixes images p))
   \<and> (length (rankedMatches prefixes images) \<le> 12 \<longrightarrow>
        filter (\<lambda>i. ImagePushedAt i = Some t) (rankedMatches prefixes images)
        = filter (\<lambda>i. ImagePushedAt i = Some t \<and> ImageTags i \<noteq> []
                      \<and> matched prefixes (ImageTags i)) images
        \<and> (images = us @ a # vs \<and> b \<notin> set us
            \<and> ImagePushedAt a = Some t \<and> ImagePushedAt b = Some t
            \<and> ImageTags a \<noteq> [] \<and> matched prefixes (ImageTags a)
            \<and> b \<in> set (take n (rankedMatches prefixes images)) \<longrightarrow>
            a \<in> set (take n (rankedMatches prefixes images))))
   \<and> (length (groupOf prefixes images p) \<le> 12 \<longrightarrow>
        filter (\<lambda>e. pushedTime e = t) (sortSlice byPushedTime (groupOf prefixes images p))
        = filter (\<lambda>e. pushedTime e = t) (groupOf prefixes images p)
        \<and> (images = us @ a # vs \<and> b \<notin> set us
            \<and> ImagePushedAt a = Some t \<and> ImagePushedAt b = Some t
            \<and> filedUnder prefixes p (ImageTags a) \<noteq> []
            \<and> entryOf b t \<in> set (take n (sortSlice byPushedTime (groupOf prefixes images p))) \<longrightarrow>
            entryOf a t \<in> set (take n (sortSlice byPushedTime (groupOf prefixes images p)))))"
proof (intro conjI impI)
  show "sorted_wrt (\<lambda>x y. \<exists>v w. ImagePushedAt x = Some v \<and> ImagePushedAt y = Some w \<and> w \<le> v)
      (rankedMatches prefixes images)"
    by (rule ranked_by_push_time)
next
  show "sorted_wrt (\<lambda>x y. pushedTime y \<le> pushedTime x)
      (sortSlice byPushedTime (groupOf prefixes images p))"
    by (rule sorted_group)
next
  show "filter (\<lambda>i. ImagePushedAt i = Some t) (rankedMatches prefixes images)
      = filter (\<lambda>i. ImagePushedAt i = Some t \<and> ImageTags i \<noteq> []
          \<and> matched prefixes (ImageTags i)) images"
    by (rule ranked_ties_input)
next
  assume "images = us @ a # vs \<and> b \<notin> set us
      \<and> ImagePushedAt a = Some t \<and> ImagePushedAt b = Some t
      \<and> ImageTags a \<noteq> [] \<and> matched prefixes (ImageTags a)
      \<and> b \<in> set (take n (rankedMatches prefixes images))"
  then have "images = us @ a # vs" "b \<notin> set us"
    "ImagePushedAt a = Some t" "ImagePushedAt b = Some t"
    "ImageTags a \<noteq> []" "matched prefixes (ImageTags a)"
    "b \<in> set (take n (rankedMatches prefixes images))"
    by blast+
  then show "a \<in> set (take n (rankedMatches prefixes images))"
    by (rule ranked_prefers_earlier)
next
  show "filter (\<lambda>e. pushedTime e = t) (sortSlice byPushedTime (groupOf prefixes images p))
      = filter (\<lambda>e. pushedTime e = t) (groupOf prefixes images p)"
    by (rule group_ties)
next
  assume "images = us @ a # vs \<and> b \<notin> set us
      \<and> ImagePushedAt a = Some t \<and> ImagePushedAt b = Some t
      \<and> filedUnder prefixes p (ImageTags a) \<noteq> []
      \<and> entryOf b t \<in> set (take n (sortSlice byPushedTime (groupOf prefixes images p)))"
  then have "images = us @ a # vs" "b \<notin> set us"
    "ImagePushedAt a = Some t" "ImagePushedAt b = Some t"
    "filedUnder prefixes p (ImageTags a) \<noteq> []"
    "entryOf b t \<in> set (take n (sortSlice byPushedTime (groupOf prefixes images p)))"
    by blast+
  then show "entryOf a t \<in> set (take n (sortSlice byPushedTime (groupOf prefixes images p)))"
    by (rule group_prefers_earlier)
qed

theorem ties_keep_input_order_witness:
  "filter (\<lambda>i. ImagePushedAt i = Some 10)
     (rankedMatches [''latest'']
        [\<lparr>ImageDigest = ''sha:n'', ImageTags = [''latest''], ImagePushedAt = Some 20\<rparr>,
         \<lparr>ImageDigest = ''sha:b'', ImageTags = [''latest-1''], ImagePushedAt = Some 10\<rparr>,
         \<lparr>ImageDigest = ''sha:a'', ImageTags = [''latest-2''], ImagePushedAt = Some 10\<rparr>])
   = [\<lparr>ImageDigest = ''sha:b'', ImageTags = [''latest-1''], ImagePushedAt = Some 10\<rparr>,
      \<lparr>ImageDigest = ''sha:a'', ImageTags = [''latest-2''], ImagePushedAt = Some 10\<rparr>]
   \<and> \<lparr>ImageDigest = ''sha:b'', ImageTags = [''latest-1''], ImagePushedAt = Some 10\<rparr>
     \<in> set (take 3 (rankedMatches [''latest'']
        [\<lparr>ImageDigest = ''sha:n'', ImageTags = [''latest''], ImagePushedAt = Some 20\<rparr>,
         \<lparr>ImageDigest = ''sha:b'', ImageTags = [''latest-1''], ImagePushedAt = Some 10\<rparr>,
         \<lparr>ImageDigest = ''sha:a'', ImageTags = [''latest-2''], ImagePushedAt = Some 10\<rparr>]))
   \<and> entryOf \<lparr>ImageDigest = ''sha:b'', ImageTags = [''latest-1''], ImagePushedAt = Some 10\<rparr> 10
     \<in> set (take 3 (sortSlice byPushedTime (groupOf [''latest'']
        [\<lparr>ImageDigest = ''sha:n'', ImageTags = [''latest''], ImagePushedAt = Some 20\<rparr>,
         \<lparr>ImageDigest = ''sha:b'', ImageTags = [''latest-1''], ImagePushedAt = Some 10\<rparr>,
         \<lparr>ImageDigest = ''sha:a'', ImageTags = [''latest-2''], ImagePushedAt = Some 10\<rparr>]
        ''latest'')))"
proof -
  let ?n = "\<lparr>ImageDigest = ''sha:n'', ImageTags = [''latest''], ImagePushedAt = Some (20::int)\<rparr>"
  let ?b = "\<lparr>ImageDigest = ''sha:b'', ImageTags = [''latest-1''], ImagePushedAt = Some (10::int)\<rparr>"
  let ?a = "\<lparr>ImageDigest = ''sha:a'', ImageTags = [''latest-2''], ImagePushedAt = Some (10::int)\<rparr>"
  let ?imgs = "[?n, ?b, ?a]"
  let ?r = "rankedMatches [''latest''] ?imgs"
  let ?s = "sortSlice byPushedTime (groupOf [''latest''] ?imgs ''latest'')"
  note inst = ties_keep_input_order [of "[''latest'']" ?imgs "''latest''" 10 "[?n]" ?b "[?a]" ?a 3]
  have r: "?r = [?n, ?b, ?a]" by code_simp
  have s: "?s = [entryOf ?n 20, entryOf ?b 10, entryOf ?a 10]" by code_simp
  have lr: "length ?r \<le> 12" unfolding r by simp
  have lg: "length (groupOf [''latest''] ?imgs ''latest'') \<le> 12"
    by (simp add: groupOf_entries entriesOf_def filedUnder_def HasPrefix_def)
  have hA: "?imgs = [?n] @ ?b # [?a] \<and> ?a \<notin> set [?n]
      \<and> ImagePushedAt ?b = Some 10 \<and> ImagePushedAt ?a = Some 10
      \<and> ImageTags ?b \<noteq> [] \<and> matched [''latest''] (ImageTags ?b)
      \<and> ?a \<in> set (take 3 ?r)"
    unfolding r by (simp add: HasPrefix_def)
  have hB: "?imgs = [?n] @ ?b # [?a] \<and> ?a \<notin> set [?n]
      \<and> ImagePushedAt ?b = Some 10 \<and> ImagePushedAt ?a = Some 10
      \<and> filedUnder [''latest''] ''latest'' (ImageTags ?b) \<noteq> []
      \<and> entryOf ?a 10 \<in> set (take 3 ?s)"
    unfolding s by (simp add: HasPrefix_def filedUnder_def)
  from inst lr have "filter (\<lambda>i. ImagePushedAt i = Some 10) ?r
      = filter (\<lambda>i. ImagePushedAt i = Some 10 \<and> ImageTags i \<noteq> []
          \<and> matched [''latest''] (ImageTags i)) ?imgs"
    by blast
  then have one: "filter (\<lambda>i. ImagePushedAt i = Some 10) ?r = [?b, ?a]"
    by (simp add: HasPrefix_def)
  from inst lr hA have two: "?b \<in> set (take 3 ?r)" by blast
  from inst lg hB have three: "entryOf ?b 10 \<in> set (take 3 ?s)" by blast
  from one two three show ?thesis by blast
qed

end
